theory Spec2Isabelle
  imports Complex_Main "HOL-Library.Multiset" "HOL-Library.AList" "HOL-Library.Sublist"
    "HOL-Library.Log_Nat"
begin

section \<open>JavaScript values used by the feed\<close>

text \<open>
  The component keeps \<open>currentIndex\<close> in a JavaScript number. Every value it can take is
  an integer of small magnitude or \<open>NaN\<close> (the result of \<open>x % 0\<close>), so a number is
  modelled as an integer or \<open>NaN\<close>. Arithmetic on numbers never throws in JavaScript:
  \<open>+\<close> and \<open>-\<close> propagate \<open>NaN\<close>, and \<open>%\<close> is the truncated remainder (sign of the
  dividend), \<open>NaN\<close> when the divisor is zero.
\<close>

datatype jsnum = Num int | NaN

datatype js_error =
  TypeError | RangeError | SetupCancelled | MediaError | NotAllowedError | PlaybackError

fun js_add :: "jsnum \<Rightarrow> jsnum \<Rightarrow> jsnum" where
  "js_add (Num a) (Num b) = Num (a + b)"
| "js_add _ _ = NaN"

fun js_sub :: "jsnum \<Rightarrow> jsnum \<Rightarrow> jsnum" where
  "js_sub (Num a) (Num b) = Num (a - b)"
| "js_sub _ _ = NaN"

fun js_mod :: "jsnum \<Rightarrow> jsnum \<Rightarrow> jsnum" where
  "js_mod (Num a) (Num b) = (if b = 0 then NaN else Num (sgn a * (\<bar>a\<bar> mod \<bar>b\<bar>)))"
| "js_mod _ _ = NaN"

text \<open>
  Reading \<open>xs[i]\<close>: an index that is not an integer within the array gives \<open>undefined\<close>,
  here \<open>None\<close>.
\<close>

fun js_index :: "'a list \<Rightarrow> jsnum \<Rightarrow> 'a option" where
  "js_index xs (Num i) = (if 0 \<le> i \<and> i < int (length xs) then Some (xs ! nat i) else None)"
| "js_index xs NaN = None"

text \<open>\<open>s.includes(pat)\<close> on strings.\<close>

fun str_includes :: "string \<Rightarrow> string \<Rightarrow> bool" where
  "str_includes [] pat = (pat = [])"
| "str_includes (c # cs) pat = (prefix pat (c # cs) \<or> str_includes cs pat)"

text \<open>
  \<open>Math.random() * (i + 1)\<close> is a product of doubles. A finite double is the rational it
  denotes, and an arithmetic result is the exact result rounded to binary64: to the
  nearest multiple of the unit in the last place (53 significant bits, exponents from
  \<open>-1022\<close> on, subnormals below), a tie going to the even multiple. Results of magnitude
  \<open>2^1024\<close> and more, which round to an infinity, do not occur here.
\<close>

definition round_half_even :: "rat \<Rightarrow> int" where
  "round_half_even q =
     (let f = \<lfloor>q\<rfloor>; d = q - of_int f
      in if d < 1/2 then f else if 1/2 < d then f + 1 else if even f then f else f + 1)"

text \<open>The binary exponent \<open>\<lfloor>log\<^sub>2 x\<rfloor>\<close> of a positive \<open>x\<close>.\<close>

definition exponent2 :: "rat \<Rightarrow> int" where
  "exponent2 x = (if 1 \<le> x then bitlen \<lfloor>x\<rfloor> - 1 else - bitlen (\<lceil>1 / x\<rceil> - 1))"

definition ulp :: "rat \<Rightarrow> rat" where
  "ulp x = 2 powi (max (exponent2 \<bar>x\<bar>) (- 1022) - 52)"

definition round_double :: "rat \<Rightarrow> rat" where
  "round_double x = (if x = 0 then 0 else of_int (round_half_even (x / ulp x)) * ulp x)"

definition is_double :: "rat \<Rightarrow> bool" where
  "is_double x = (\<bar>x\<bar> < 2 ^ 1024 \<and> round_double x = x)"

text \<open>\<open>a * b\<close> on doubles.\<close>

definition js_times :: "rat \<Rightarrow> rat \<Rightarrow> rat" where
  "js_times a b = round_double (a * b)"

section \<open>Feed sequencer (AudioFeed)\<close>

text \<open>
  \<open>liked\<close> is an optional field: \<open>None\<close> is the absent field (\<open>undefined\<close>), as in every
  freshly fetched snippet.
\<close>

record AudioSnippet =
  url :: string
  name :: string
  created_at :: string
  liked :: "bool option"

record feed_state =
  snippets :: "AudioSnippet list"
  currentIndex :: jsnum
  isPlaying :: bool
  autoplayEnabled :: bool
  playOrder :: "nat list"

text \<open>\<open>setCurrentIndex(prev => (prev + 1) % snippets.length); setIsPlaying(true)\<close>\<close>

definition handleNext :: "feed_state \<Rightarrow> feed_state" where
  "handleNext s =
     s\<lparr>currentIndex := js_mod (js_add (currentIndex s) (Num 1)) (Num (int (length (snippets s)))),
       isPlaying := True\<rparr>"

text \<open>\<open>setCurrentIndex(prev => (prev - 1 + snippets.length) % snippets.length); setIsPlaying(true)\<close>\<close>

definition handlePrevious :: "feed_state \<Rightarrow> feed_state" where
  "handlePrevious s =
     s\<lparr>currentIndex :=
         js_mod (js_add (js_sub (currentIndex s) (Num 1)) (Num (int (length (snippets s)))))
                (Num (int (length (snippets s)))),
       isPlaying := True\<rparr>"

text \<open>
  \<open>getCurrentTrack\<close>: \<open>null\<close> when either list is empty, otherwise
  \<open>snippets[playOrder[currentIndex % playOrder.length]]\<close>, which is \<open>undefined\<close> when an
  index misses. The caller only tests the result for truthiness, so \<open>None\<close> stands for
  both \<open>null\<close> and \<open>undefined\<close>.
\<close>

definition getCurrentTrack :: "feed_state \<Rightarrow> AudioSnippet option" where
  "getCurrentTrack s =
     (if length (snippets s) = 0 \<or> length (playOrder s) = 0 then None
      else case js_index (playOrder s)
                  (js_mod (currentIndex s) (Num (int (length (playOrder s))))) of
             None \<Rightarrow> None
           | Some p \<Rightarrow> js_index (snippets s) (Num (int p)))"

text \<open>
  \<open>handleDoubleTap\<close>: copies the array and replaces \<open>updated[currentIndex]\<close> by a copy
  with \<open>liked: !updated[currentIndex].liked\<close>. When \<open>updated[currentIndex]\<close> is
  \<open>undefined\<close>, reading \<open>.liked\<close> throws a TypeError. \<open>!undefined\<close> is \<open>true\<close>.
\<close>

definition truthy :: "bool option \<Rightarrow> bool" where
  "truthy b = (case b of None \<Rightarrow> False | Some v \<Rightarrow> v)"

definition handleDoubleTap :: "feed_state \<Rightarrow> js_error + feed_state" where
  "handleDoubleTap s =
     (case currentIndex s of
        NaN \<Rightarrow> Inl TypeError
      | Num i \<Rightarrow>
          (case js_index (snippets s) (Num i) of
             None \<Rightarrow> Inl TypeError
           | Some t \<Rightarrow>
               Inr (s\<lparr>snippets := (snippets s)[nat i := t\<lparr>liked := Some (\<not> truthy (liked t))\<rparr>]\<rparr>)))"

text \<open>
  \<open>generatePlayOrder\<close>: \<open>Array.from({length}, (_, i) => i)\<close>, which throws a RangeError
  for a length of \<open>2^32\<close> or more, then the loop
  \<open>for (i = order.length - 1; i > 0; i--)\<close> with
  \<open>j = Math.floor(Math.random() * (i + 1))\<close> and the swap of \<open>order[i]\<close> and \<open>order[j]\<close>.
  The random source is a parameter: \<open>rnd k\<close> is the value of the \<open>k\<close>-th call of
  \<open>Math.random()\<close>. The indices \<open>i\<close> and \<open>i + 1\<close> are integers below \<open>2^32\<close>, which
  doubles hold exactly; the product is the rounded product of doubles.
\<close>

fun shuffle_loop :: "(nat \<Rightarrow> rat) \<Rightarrow> nat \<Rightarrow> nat \<Rightarrow> nat list \<Rightarrow> nat list" where
  "shuffle_loop rnd k i order =
     (if 0 < i then
        (let j = nat \<lfloor>js_times (rnd k) (of_nat (i + 1))\<rfloor>
         in shuffle_loop rnd (k + 1) (i - 1) (order[i := order ! j, j := order ! i]))
      else order)"

definition generatePlayOrder :: "(nat \<Rightarrow> rat) \<Rightarrow> nat \<Rightarrow> js_error + nat list" where
  "generatePlayOrder rnd n =
     (if 2 ^ 32 \<le> int n then Inl RangeError else Inr (shuffle_loop rnd 0 (n - 1) [0..<n]))"

text \<open>
  \<open>fetchSnippets\<close> once the listing has arrived: the placeholder entries are filtered
  out, a play order is generated, and \<open>setPlayOrder(newOrder); setSnippets(filteredSnippets)\<close>
  follow. \<open>currentIndex\<close> is not touched. An exception on the way is caught, and the
  state stays as it was.
\<close>

definition fetchSnippets :: "(nat \<Rightarrow> rat) \<Rightarrow> AudioSnippet list \<Rightarrow> feed_state \<Rightarrow> feed_state" where
  "fetchSnippets rnd rawSnippets s =
     (let filteredSnippets =
            filter (\<lambda>t. \<not> str_includes (name t) ''.emptyFolderPlaceholder'') rawSnippets
      in case generatePlayOrder rnd (length filteredSnippets) of
           Inl e \<Rightarrow> s
         | Inr newOrder \<Rightarrow> s\<lparr>playOrder := newOrder, snippets := filteredSnippets\<rparr>)"

section \<open>Preload cache manager (AudioFeed)\<close>

text \<open>\<open>!url || url.includes('.emptyFolderPlaceholder')\<close>\<close>

definition is_placeholder :: "string \<Rightarrow> bool" where
  "is_placeholder u = (u = [] \<or> str_includes u ''.emptyFolderPlaceholder'')"

text \<open>
  A cache entry: the audio element (of which only \<open>src\<close> is kept) and the two flags.
\<close>

record PreloadedAudio =
  audio_src :: string
  loaded :: bool
  error :: bool

text \<open>
  The JavaScript \<open>Map\<close> behind \<open>preloadedAudiosRef\<close>, as the list of its entries in
  insertion order: \<open>set\<close> replaces the value of a key that is present and appends a new
  key, \<open>delete\<close> removes the key, \<open>size\<close> counts the entries.
\<close>

type_synonym preload_cache = "(string \<times> PreloadedAudio) list"

definition map_has :: "preload_cache \<Rightarrow> string \<Rightarrow> bool" where
  "map_has m k = (map_of m k \<noteq> None)"

definition map_get :: "preload_cache \<Rightarrow> string \<Rightarrow> PreloadedAudio option" where
  "map_get m k = map_of m k"

definition map_set :: "preload_cache \<Rightarrow> string \<Rightarrow> PreloadedAudio \<Rightarrow> preload_cache" where
  "map_set m k v = AList.update k v m"

definition map_delete :: "preload_cache \<Rightarrow> string \<Rightarrow> preload_cache" where
  "map_delete m k = AList.delete k m"

definition map_size :: "preload_cache \<Rightarrow> nat" where
  "map_size m = length m"

definition maxPreloadCount :: nat where
  "maxPreloadCount = 3"

text \<open>
  \<open>preloadAudio\<close> from its start to its \<open>await\<close>. The result says whether it is now
  waiting for the load events of the new element (\<open>True\<close>) or has returned (\<open>False\<close>).
\<close>

definition preloadAudio_start :: "string \<Rightarrow> preload_cache \<Rightarrow> bool \<times> preload_cache" where
  "preloadAudio_start u c =
     (if is_placeholder u then (False, c)
      else if maxPreloadCount \<le> map_size c then (False, c)
      else
        (let fresh = \<lparr>audio_src = u, loaded = False, error = False\<rparr> in
         if map_has c u then
           (case map_get c u of
              Some existing \<Rightarrow>
                if error existing then (True, map_set (map_delete c u) u fresh)
                else (False, c)
            | None \<Rightarrow> (False, c))
         else (True, map_set c u fresh)))"

text \<open>
  The \<open>canplaythrough\<close> listener: \<open>entry.loaded = true\<close> on the entry of the URL, if any.
\<close>

definition onCanPlay :: "string \<Rightarrow> preload_cache \<Rightarrow> preload_cache" where
  "onCanPlay u c =
     (case map_get c u of None \<Rightarrow> c | Some entry \<Rightarrow> map_set c u (entry\<lparr>loaded := True\<rparr>))"

text \<open>
  The \<open>error\<close> listener followed by the \<open>catch\<close> block of \<open>preloadAudio\<close>:
  \<open>entry.error = true\<close> (twice), \<open>entry.audio.src = ''\<close>, and the error is thrown on.
\<close>

definition onError :: "string \<Rightarrow> preload_cache \<Rightarrow> preload_cache" where
  "onError u c =
     (case map_get c u of
        None \<Rightarrow> c
      | Some entry \<Rightarrow> map_set c u (entry\<lparr>error := True, audio_src := []\<rparr>))"

text \<open>
  Where the one running \<open>processPreloadQueue\<close> is suspended, in \<open>await preloadAudio(url)\<close>:
  \<open>preloadAudio\<close> waits for the load events of \<open>url\<close>, or it has already returned and only
  the continuation is outstanding.
\<close>

datatype preload_wait = AwaitLoad string | AwaitReturn

record preload_state =
  preloadedAudios :: preload_cache
  preloadQueue :: "string list"
  isPreloading :: bool
  worker :: "preload_wait option"
  timers :: nat

text \<open>\<open>processPreloadQueue\<close> up to its \<open>await\<close>.\<close>

definition processPreloadQueue :: "preload_state \<Rightarrow> preload_state" where
  "processPreloadQueue s =
     (if isPreloading s then s
      else case preloadQueue s of
        [] \<Rightarrow> s
      | u # _ \<Rightarrow>
          (case preloadAudio_start u (preloadedAudios s) of
             (waiting, c) \<Rightarrow>
               s\<lparr>isPreloading := True, preloadedAudios := c,
                  worker := Some (if waiting then AwaitLoad u else AwaitReturn)\<rparr>))"

text \<open>
  The \<open>finally\<close> block: the flag is cleared, and a non-empty queue schedules another pass
  with \<open>setTimeout\<close>.
\<close>

definition finally_block :: "preload_state \<Rightarrow> preload_state" where
  "finally_block s =
     (let s' = s\<lparr>isPreloading := False, worker := None\<rparr>
      in if preloadQueue s' \<noteq> [] then s'\<lparr>timers := timers s' + 1\<rparr> else s')"

text \<open>After \<open>preloadAudio\<close> returned: \<open>preloadQueueRef.current.shift()\<close>.\<close>

definition after_preload :: "preload_state \<Rightarrow> preload_state" where
  "after_preload s = finally_block (s\<lparr>preloadQueue := tl (preloadQueue s)\<rparr>)"

text \<open>
  After \<open>preloadAudio\<close> threw, the \<open>catch\<close> block:
  \<open>failedUrl = shift(); if (failedUrl) push(failedUrl)\<close>.
\<close>

definition after_preload_error :: "preload_state \<Rightarrow> preload_state" where
  "after_preload_error s =
     finally_block
       (case preloadQueue s of
          [] \<Rightarrow> s
        | failedUrl # rest \<Rightarrow>
            s\<lparr>preloadQueue := (if failedUrl \<noteq> [] then rest @ [failedUrl] else rest)\<rparr>)"

definition queuePreload :: "string \<Rightarrow> preload_state \<Rightarrow> preload_state" where
  "queuePreload u s =
     (if is_placeholder u then s
      else if u \<notin> set (preloadQueue s) \<and> \<not> map_has (preloadedAudios s) u
        then processPreloadQueue (s\<lparr>preloadQueue := preloadQueue s @ [u]\<rparr>)
      else s)"

text \<open>
  What can happen to the preload manager: a warm request, a timer set by the \<open>finally\<close>
  block firing, the element in preparation becoming playable or failing, and the
  continuation of a pass whose \<open>preloadAudio\<close> returned without waiting.
\<close>

datatype preload_event = Warm string | TimerFired | PreloadCanPlay | PreloadFailed | PreloadReturned

fun preload_step :: "preload_event \<Rightarrow> preload_state \<Rightarrow> preload_state" where
  "preload_step (Warm u) s = queuePreload u s"
| "preload_step TimerFired s =
     (if timers s = 0 then s else processPreloadQueue (s\<lparr>timers := timers s - 1\<rparr>))"
| "preload_step PreloadCanPlay s =
     (case worker s of
        Some (AwaitLoad u) \<Rightarrow> after_preload (s\<lparr>preloadedAudios := onCanPlay u (preloadedAudios s)\<rparr>)
      | _ \<Rightarrow> s)"
| "preload_step PreloadFailed s =
     (case worker s of
        Some (AwaitLoad u) \<Rightarrow>
          after_preload_error (s\<lparr>preloadedAudios := onError u (preloadedAudios s)\<rparr>)
      | _ \<Rightarrow> s)"
| "preload_step PreloadReturned s =
     (case worker s of Some AwaitReturn \<Rightarrow> after_preload s | _ \<Rightarrow> s)"

definition preload_run :: "preload_event list \<Rightarrow> preload_state \<Rightarrow> preload_state" where
  "preload_run es s = fold preload_step es s"

definition preload_init :: preload_state where
  "preload_init =
     \<lparr>preloadedAudios = [], preloadQueue = [], isPreloading = False, worker = None, timers = 0\<rparr>"

section \<open>Playback session controller (AudioVisualizer)\<close>

text \<open>
  \<open>setupAudio\<close> is an \<open>async\<close> function over refs shared by all runs of the set-up
  effect, so it is modelled as a coroutine: one function per stretch of code between two
  suspension points, and a step function that resumes a suspended run when the platform
  delivers the event it waits for. The constructors of the audio objects are taken not
  to throw. The separate play/pause effect and the body of the gesture listener are not
  part of the model.
\<close>

text \<open>
  The audio element behind \<open>audioRef\<close>: its \<open>src\<close>, its \<open>loop\<close> flag, and how often
  \<open>play()\<close> and \<open>pause()\<close> have been called on it.
\<close>

record audio_el =
  el_src :: string
  el_loop :: bool
  play_calls :: nat
  pause_calls :: nat

definition new_Audio :: audio_el where
  "new_Audio = \<lparr>el_src = [], el_loop = False, play_calls = 0, pause_calls = 0\<rparr>"

datatype ctx_state = Suspended | Running

text \<open>
  The refs of the component that hold the audio graph, the flag of the animation loop,
  the listener registered on \<open>window\<close> after a refused \<open>play()\<close>, and two inputs from the
  platform: the value of \<open>Date.now()\<close> and whether a new \<open>AudioContext\<close> starts suspended.
\<close>

record visualizer =
  audioRef :: "audio_el option"
  audioContextRef :: "ctx_state option"
  analyserRef :: bool
  sourceNodeRef :: bool
  animation :: bool
  lastUrlRef :: string
  resume_listener :: bool
  date_now :: string
  ctx_starts_suspended :: bool

text \<open>
  \<open>cleanupAudio\<close> on the refs: the nodes are disconnected, the context is closed, the
  animation frame is cancelled, and every ref is emptied.
\<close>

definition cleanupAudio :: "visualizer \<Rightarrow> visualizer" where
  "cleanupAudio st =
     st\<lparr>sourceNodeRef := False, audioRef := None, audioContextRef := None,
        analyserRef := False, animation := False\<rparr>"

text \<open>
  \<open>cleanupAudio\<close> on the element: before \<open>audioRef\<close> is emptied, the element gets
  \<open>pause()\<close>, \<open>src = ''\<close> and \<open>load()\<close>.
\<close>

definition released :: "audio_el \<Rightarrow> audio_el" where
  "released el = el\<lparr>el_src := [], pause_calls := pause_calls el + 1\<rparr>"

text \<open>
  One run of the set-up effect: the props it closed over, its \<open>isCurrentSetup\<close> and
  \<open>retryCount\<close> variables, and the \<open>await\<close> at which its \<open>setupAudio\<close> is suspended.
\<close>

datatype pc = AtMetadata | AtBuffer | AtResume | AtPlay | Returned

record acquisition =
  v_audioUrl :: string
  v_isPlaying :: bool
  v_preloadedAudio :: "audio_el option"
  v_autoplayEnabled :: bool
  isCurrentSetup :: bool
  retryCount :: nat
  suspended_at :: pc

definition maxRetries :: nat where
  "maxRetries = 3"

text \<open>
  Elements are modelled by value, but the element of the \<open>preloadedAudio\<close> prop is one
  object: while a set-up with such a prop is current, \<open>audioRef\<close> holds that very
  object (\<open>audioRef.current = preloadedAudio || new Audio()\<close>), and what \<open>cleanupAudio\<close>
  does to the element it does to the object the prop still refers to. So wherever
  \<open>cleanupAudio\<close> runs, the copy held as the prop is brought up to date: it becomes the
  element of \<open>audioRef\<close> as \<open>cleanupAudio\<close> leaves it.
\<close>

definition release_preloaded :: "visualizer \<Rightarrow> acquisition \<Rightarrow> acquisition" where
  "release_preloaded st a =
     (case v_preloadedAudio a of
        None \<Rightarrow> a
      | Some p \<Rightarrow>
          (case audioRef st of
             None \<Rightarrow> a
           | Some el \<Rightarrow> a\<lparr>v_preloadedAudio := Some (released el)\<rparr>))"

text \<open>
  How a stretch of \<open>setupAudio\<close> between two suspension points ends: at an \<open>await\<close>, by
  returning, or by an exception in the inner \<open>try\<close> (the play attempt) or the outer one.
\<close>

datatype outcome = Suspend pc | Return | ThrowInner js_error | ThrowOuter js_error

definition cacheBuster :: "string \<Rightarrow> string \<Rightarrow> string" where
  "cacheBuster u now = u @ (if str_includes u ''?'' then ''&'' else ''?'') @ ''_='' @ now"

text \<open>\<open>const playPromise = audioRef.current.play(); await playPromise\<close>\<close>

definition setupAudio_play :: "visualizer \<Rightarrow> outcome \<times> visualizer" where
  "setupAudio_play st =
     (case audioRef st of
        None \<Rightarrow> (ThrowInner TypeError, st)
      | Some el \<Rightarrow> (Suspend AtPlay, st\<lparr>audioRef := Some (el\<lparr>play_calls := play_calls el + 1\<rparr>)\<rparr>))"

text \<open>
  From \<open>// Initialize audio context only when needed\<close> to the next suspension point:
  the context, the analyser and the source node are created where absent, the animation
  starts, and the playback state is handled.
\<close>

definition setupAudio_graph :: "acquisition \<Rightarrow> visualizer \<Rightarrow> outcome \<times> visualizer" where
  "setupAudio_graph a st =
     (let st1 = (if audioContextRef st = None
                 then st\<lparr>audioContextRef :=
                          Some (if ctx_starts_suspended st then Suspended else Running)\<rparr>
                 else st);
          st2 = (if \<not> analyserRef st1 \<and> audioContextRef st1 \<noteq> None
                 then st1\<lparr>analyserRef := True\<rparr> else st1);
          st3 = (if \<not> sourceNodeRef st2 \<and> audioRef st2 \<noteq> None
                    \<and> audioContextRef st2 \<noteq> None \<and> analyserRef st2
                 then st2\<lparr>sourceNodeRef := True\<rparr> else st2);
          st4 = st3\<lparr>animation := True\<rparr>
      in if v_isPlaying a \<and> audioRef st4 \<noteq> None \<and> isCurrentSetup a then
           (if audioContextRef st4 = Some Suspended then (Suspend AtResume, st4)
            else setupAudio_play st4)
         else
           (case audioRef st4 of
              Some el \<Rightarrow> (Return, st4\<lparr>audioRef := Some (el\<lparr>pause_calls := pause_calls el + 1\<rparr>)\<rparr>)
            | None \<Rightarrow> (Return, st4)))"

text \<open>
  The executor of the second promise (wait for enough data), run when the first one
  resolved; \<open>ready\<close> says whether \<open>readyState >= 4\<close> holds by then.
\<close>

definition setupAudio_buffer :: "bool \<Rightarrow> acquisition \<Rightarrow> visualizer \<Rightarrow> outcome \<times> visualizer" where
  "setupAudio_buffer ready a st =
     (if audioRef st = None \<or> \<not> isCurrentSetup a then (ThrowOuter SetupCancelled, st)
      else if ready then setupAudio_graph a st
      else (Suspend AtBuffer, st))"

text \<open>
  \<open>setupAudio\<close> from its first line to its first suspension point: the element is created
  if absent (the preloaded one if there is one), and a source that differs from
  \<open>audioUrl\<close> is replaced by the cache-busting URL and awaited.
\<close>

definition setupAudio_start :: "acquisition \<Rightarrow> visualizer \<Rightarrow> outcome \<times> visualizer" where
  "setupAudio_start a st =
     (let el = (case audioRef st of
                  Some e \<Rightarrow> e
                | None \<Rightarrow>
                    (case v_preloadedAudio a of Some p \<Rightarrow> p | None \<Rightarrow> new_Audio)
                      \<lparr>el_loop := \<not> v_autoplayEnabled a\<rparr>);
          st1 = st\<lparr>audioRef := Some el\<rparr>
      in if el_src el \<noteq> v_audioUrl a then
           (let st2 = st1\<lparr>audioRef := Some (el\<lparr>el_src := cacheBuster (v_audioUrl a) (date_now st1)\<rparr>)\<rparr>
            in if \<not> isCurrentSetup a then (ThrowOuter SetupCancelled, st2)
               else (Suspend AtMetadata, st2))
         else setupAudio_graph a st1)"

text \<open>
  What follows a stretch of \<open>setupAudio\<close>: the two \<open>catch\<close> blocks with their retries.
  A retry is the recursive call \<open>await setupAudio()\<close>, after which the caller has
  nothing left to do.
\<close>

function setupAudio_catch :: "outcome \<Rightarrow> acquisition \<Rightarrow> visualizer \<Rightarrow> acquisition \<times> visualizer" where
  "setupAudio_catch (Suspend p) a st = (a\<lparr>suspended_at := p\<rparr>, st)"
| "setupAudio_catch Return a st = (a\<lparr>suspended_at := Returned\<rparr>, st)"
| "setupAudio_catch (ThrowInner e) a st =
     (if \<not> isCurrentSetup a then (a\<lparr>suspended_at := Returned\<rparr>, st)
      else if e = NotAllowedError then (a\<lparr>suspended_at := Returned\<rparr>, st\<lparr>resume_listener := True\<rparr>)
      else if retryCount a < maxRetries then
        (case setupAudio_start ((release_preloaded st a)\<lparr>retryCount := retryCount a + 1\<rparr>)
                (cleanupAudio st) of
           (out, st') \<Rightarrow>
             setupAudio_catch out ((release_preloaded st a)\<lparr>retryCount := retryCount a + 1\<rparr>) st')
      else (a\<lparr>suspended_at := Returned\<rparr>, st))"
| "setupAudio_catch (ThrowOuter e) a st =
     (if \<not> isCurrentSetup a then (a\<lparr>suspended_at := Returned\<rparr>, st)
      else if retryCount a < maxRetries then
        (case setupAudio_start ((release_preloaded st a)\<lparr>retryCount := retryCount a + 1\<rparr>)
                (cleanupAudio st) of
           (out, st') \<Rightarrow>
             setupAudio_catch out ((release_preloaded st a)\<lparr>retryCount := retryCount a + 1\<rparr>) st')
      else ((release_preloaded st a)\<lparr>suspended_at := Returned\<rparr>, cleanupAudio st))"
  by pat_completeness auto
termination
  by (relation "measure (\<lambda>(out, a, st). maxRetries - retryCount a)") auto

text \<open>The events of the platform that resume a suspended \<open>setupAudio\<close>.\<close>

datatype media_event =
    LoadedMetadata bool
  | MediaErrorEvent
  | CanPlayThrough
  | ResumeResolved
  | ResumeRejected js_error
  | PlayResolved
  | PlayRejected js_error

fun deliver :: "media_event \<Rightarrow> acquisition \<Rightarrow> visualizer \<Rightarrow> acquisition \<times> visualizer" where
  "deliver ev a st =
     (case (suspended_at a, ev) of
        (AtMetadata, LoadedMetadata ready) \<Rightarrow>
          if \<not> isCurrentSetup a then (a, st)
          else (case setupAudio_buffer ready a st of (out, st') \<Rightarrow> setupAudio_catch out a st')
      | (AtMetadata, MediaErrorEvent) \<Rightarrow>
          if isCurrentSetup a then setupAudio_catch (ThrowOuter MediaError) a st else (a, st)
      | (AtBuffer, CanPlayThrough) \<Rightarrow>
          if \<not> isCurrentSetup a then (a, st)
          else (case setupAudio_graph a st of (out, st') \<Rightarrow> setupAudio_catch out a st')
      | (AtBuffer, MediaErrorEvent) \<Rightarrow>
          if isCurrentSetup a then setupAudio_catch (ThrowOuter MediaError) a st else (a, st)
      | (AtResume, ResumeResolved) \<Rightarrow>
          (case setupAudio_play st of (out, st') \<Rightarrow> setupAudio_catch out a st')
      | (AtResume, ResumeRejected e) \<Rightarrow> setupAudio_catch (ThrowInner e) a st
      | (AtPlay, PlayResolved) \<Rightarrow> (a\<lparr>retryCount := 0, suspended_at := Returned\<rparr>, st)
      | (AtPlay, PlayRejected e) \<Rightarrow> setupAudio_catch (ThrowInner e) a st
      | _ \<Rightarrow> (a, st))"

text \<open>
  The component: its refs and every run of the set-up effect so far, the last one being
  the current one.
\<close>

record component =
  vis :: visualizer
  acqs :: "acquisition list"

text \<open>
  A render whose props differ from the last one's. The clean-up of the previous set-up
  effect runs first (\<open>isCurrentSetup = false; cleanupAudio()\<close>), then the track-change
  effect (\<open>cleanupAudio()\<close> when the URL differs from \<open>lastUrlRef\<close>), then the set-up
  effect with a fresh closure, up to the first suspension point of its \<open>setupAudio\<close>.
\<close>

definition supersede :: "visualizer \<Rightarrow> acquisition list \<Rightarrow> acquisition list" where
  "supersede st as =
     (case rev as of
        [] \<Rightarrow> []
      | a # older \<Rightarrow> rev older @ [(release_preloaded st a)\<lparr>isCurrentSetup := False\<rparr>])"

definition render :: "string \<Rightarrow> bool \<Rightarrow> audio_el option \<Rightarrow> bool \<Rightarrow> component \<Rightarrow> component" where
  "render u playing preloaded autoplay c =
     (let st0 = (if acqs c = [] then vis c else cleanupAudio (vis c));
          st1 = (if u \<noteq> lastUrlRef st0 then (cleanupAudio st0)\<lparr>lastUrlRef := u\<rparr> else st0);
          a = \<lparr>v_audioUrl = u, v_isPlaying = playing, v_preloadedAudio = preloaded,
               v_autoplayEnabled = autoplay, isCurrentSetup = True, retryCount = 0,
               suspended_at = Returned\<rparr>
      in case setupAudio_start a st1 of
           (out, st2) \<Rightarrow>
             (case setupAudio_catch out a st2 of
                (a', st3) \<Rightarrow> \<lparr>vis = st3, acqs = supersede (vis c) (acqs c) @ [a']\<rparr>))"

text \<open>
  The \<open>preloadedAudio\<close> prop of the last render, as the clean-up of its set-up effect
  leaves the element.
\<close>

definition same_preloaded :: "component \<Rightarrow> audio_el option" where
  "same_preloaded c =
     (case rev (supersede (vis c) (acqs c)) of [] \<Rightarrow> None | a # older \<Rightarrow> v_preloadedAudio a)"

text \<open>Unmounting runs the clean-up of the current set-up effect.\<close>

definition unmount :: "component \<Rightarrow> component" where
  "unmount c =
     \<lparr>vis = (if acqs c = [] then vis c else cleanupAudio (vis c)),
      acqs = supersede (vis c) (acqs c)\<rparr>"

text \<open>
  \<open>Render u playing preloaded autoplay\<close> is a render with these props, \<open>preloaded\<close> being
  an element that no earlier render has passed, in the state the preload manager left
  it. \<open>RenderAgain u playing autoplay\<close> is a render that passes the same element object
  as the render before it.
\<close>

datatype component_event =
    Render string bool "audio_el option" bool
  | RenderAgain string bool bool
  | Deliver nat media_event
  | Unmount

fun component_step :: "component_event \<Rightarrow> component \<Rightarrow> component" where
  "component_step (Render u playing preloaded autoplay) c = render u playing preloaded autoplay c"
| "component_step (RenderAgain u playing autoplay) c =
     render u playing (same_preloaded c) autoplay c"
| "component_step (Deliver k ev) c =
     (if k < length (acqs c) then
        (case deliver ev (acqs c ! k) (vis c) of
           (a', st') \<Rightarrow> \<lparr>vis = st', acqs = (acqs c)[k := a']\<rparr>)
      else c)"
| "component_step Unmount c = unmount c"

definition component_run :: "component_event list \<Rightarrow> component \<Rightarrow> component" where
  "component_run es c = fold component_step es c"

text \<open>The component before its first render; the two platform inputs are parameters.\<close>

definition component_init :: "string \<Rightarrow> bool \<Rightarrow> component" where
  "component_init now suspended =
     \<lparr>vis = \<lparr>audioRef = None, audioContextRef = None, analyserRef = False,
             sourceNodeRef = False, animation = False, lastUrlRef = [],
             resume_listener = False, date_now = now, ctx_starts_suspended = suspended\<rparr>,
      acqs = []\<rparr>"

section \<open>Invariant and examples used in the statements\<close>

text \<open>
  The invariant of the preload cache: at most \<open>maxPreloadCount\<close> entries, and no key
  twice.
\<close>

definition cache_ok :: "preload_cache \<Rightarrow> bool" where
  "cache_ok c = (map_size c \<le> maxPreloadCount \<and> distinct (map fst c))"

text \<open>The scenario of the feed: tracks A, B, C in fetch order, play order B, A, C.\<close>

definition track :: "string \<Rightarrow> AudioSnippet" where
  "track n = \<lparr>url = ''https://store/'' @ n, name = n, created_at = ''2024-01-01'', liked = None\<rparr>"

definition feed_example :: feed_state where
  "feed_example = \<lparr>snippets = [track ''A'', track ''B'', track ''C''], currentIndex = Num 0,
      isPlaying = False, autoplayEnabled = True, playOrder = [1, 0, 2]\<rparr>"

definition feed_empty :: feed_state where
  "feed_empty = \<lparr>snippets = [], currentIndex = Num 0,
      isPlaying = False, autoplayEnabled = False, playOrder = []\<rparr>"

text \<open>
  A key press on the empty list, before the listing with the tracks A, B, C arrives.
\<close>

definition feed_after_early_key :: feed_state where
  "feed_after_early_key =
     fetchSnippets (\<lambda>k. 1/2) [track ''A'', track ''B'', track ''C''] (handleNext feed_empty)"

text \<open>States of the preload manager reached from the initial one, used as examples.\<close>

definition three_cached :: preload_state where
  "three_cached = preload_run [Warm ''a'', PreloadCanPlay, Warm ''b'', PreloadCanPlay, Warm ''c'', PreloadFailed] preload_init"

definition retry_in_flight :: preload_state where
  "retry_in_flight = preload_run [Warm ''a.webm'', PreloadFailed, TimerFired] preload_init"

definition cache_full :: preload_state where
  "cache_full = preload_run [Warm ''a'', PreloadCanPlay, Warm ''b'', PreloadCanPlay, Warm ''c'', PreloadCanPlay] preload_init"

text \<open>
  Event sequences of the playback session controller, used as examples: a track switch
  while the first set-up waits for \<open>resume()\<close>; a track whose \<open>play()\<close> is rejected
  four times with an error other than \<open>NotAllowedError\<close>; a track whose load fails four
  times. And the element the preload manager has prepared for track A.
\<close>

definition rapid_switch :: "component_event list" where
  "rapid_switch =
     [Render ''A'' True None True, Deliver 0 (LoadedMetadata False), Deliver 0 CanPlayThrough,
      Render ''B'' True None True]"

definition play_fails :: "component_event list" where
  "play_fails =
     Render ''A'' True None True #
     concat (replicate 4 [Deliver 0 (LoadedMetadata False), Deliver 0 CanPlayThrough,
                          Deliver 0 (PlayRejected PlaybackError)])"

definition preloaded_A :: audio_el where
  "preloaded_A = \<lparr>el_src = ''A'', el_loop = False, play_calls = 0, pause_calls = 0\<rparr>"

definition load_fails :: "component_event list" where
  "load_fails = Render ''A'' True None True # replicate 4 (Deliver 0 MediaErrorEvent)"

declare shuffle_loop.simps [simp del]

section \<open>Verified properties: feed sequencer\<close>

subsection \<open>The product of doubles in the shuffle\<close>

text \<open>The binary exponent is a lower bound: \<open>2^e \<le> x\<close>.\<close>

lemma exponent2_le:
  assumes "0 < x" shows "2 powi exponent2 x \<le> x"
proof (cases "1 \<le> x")
  case True
  then have p: "0 < \<lfloor>x\<rfloor>" by linarith
  from bitlen_bounds[OF p] have "(2::int) ^ nat (bitlen \<lfloor>x\<rfloor> - 1) \<le> \<lfloor>x\<rfloor>" by simp
  then have "(of_int ((2::int) ^ nat (bitlen \<lfloor>x\<rfloor> - 1)) :: rat) \<le> of_int \<lfloor>x\<rfloor>"
    by (simp only: of_int_le_iff)
  then have "(2::rat) ^ nat (bitlen \<lfloor>x\<rfloor> - 1) \<le> x" by (simp add: le_floor_iff)
  moreover have "0 \<le> bitlen \<lfloor>x\<rfloor> - 1" using p by (simp add: bitlen_alt_def)
  ultimately show ?thesis using True by (simp add: exponent2_def power_int_def)
next
  case False
  then have x1: "x < 1" by simp
  let ?N = "\<lceil>1 / x\<rceil>"
  let ?b = "bitlen (?N - 1)"
  have "1 < 1 / x" using assms x1 by simp
  then have n: "0 < ?N - 1" by linarith
  from bitlen_bounds[OF n] have "?N - 1 < 2 ^ nat ?b" by simp
  then have "?N \<le> 2 ^ nat ?b" by simp
  then have c: "(of_int ?N :: rat) \<le> of_int (2 ^ nat ?b)" by (simp only: of_int_le_iff)
  have "1 / x \<le> of_int ?N" by (rule le_of_int_ceiling)
  also note c
  also have "(of_int (2 ^ nat ?b) :: rat) = 2 ^ nat ?b" by simp
  finally have "1 / x \<le> 2 ^ nat ?b" .
  then have "1 \<le> 2 ^ nat ?b * x" using assms by (simp add: pos_divide_le_eq)
  then have "1 / 2 ^ nat ?b \<le> x" by (simp add: pos_divide_le_eq mult.commute)
  moreover have "0 \<le> ?b" by (rule bitlen_nonneg)
  ultimately show ?thesis using False
    by (cases "?b = 0") (simp_all add: exponent2_def power_int_def field_simps)
qed

text \<open>Rounding to an integer stays below an integer that is more than a half away.\<close>

lemma round_half_even_less:
  assumes "q < of_int M - 1/2" shows "round_half_even q \<le> M - 1"
proof -
  have f: "of_int \<lfloor>q\<rfloor> \<le> q" by simp
  show ?thesis
    unfolding round_half_even_def Let_def using assms f
    by (auto; linarith)
qed

lemma round_half_even_nonneg: "0 \<le> q \<Longrightarrow> 0 \<le> round_half_even q"
  unfolding round_half_even_def Let_def by auto

lemma powi_neg: "(2::rat) powi (- int n) = 1 / 2 ^ n"
  by (simp only: power_int_minus power_int_of_nat inverse_eq_divide)

text \<open>The largest double below 1 is \<open>1 - 2^-53\<close>.\<close>

lemma double_below_one:
  assumes d: "is_double r" and r1: "r < 1"
  shows "r \<le> 1 - 1 / 2 ^ 53"
proof (cases "r < 1/2")
  case True
  have "(1::rat) / 2 ^ 53 \<le> 1 / 2" by simp
  with True show ?thesis by linarith
next
  case False
  then have h: "1/2 \<le> r" by simp
  then have r0: "0 < r" by simp
  have "1 < 1 / r" using r0 r1 by simp
  moreover have "1 / r \<le> 2" using h r0 by (simp add: field_simps)
  ultimately have c: "\<lceil>1 / r\<rceil> = 2" by (simp add: ceiling_eq_iff)
  have b1: "bitlen 1 = 1" by (simp add: bitlen_alt_def)
  have e: "exponent2 r = - 1" using r1 c b1 by (simp add: exponent2_def)
  have "ulp r = 2 powi (- int 53)" using r0 e by (simp add: ulp_def)
  then have u: "ulp r = 1 / 2 ^ 53" by (simp only: powi_neg)
  define K where "K = round_half_even (r / ulp r)"
  have "round_double r = r" using d by (simp add: is_double_def)
  then have "of_int K * ulp r = r" using r0 by (simp add: round_double_def K_def)
  then have "of_int K * (1 / 2 ^ 53) = r" by (simp only: u)
  then have rk: "r = of_int K / 2 ^ 53" by simp
  then have "of_int K < (2::rat) ^ 53" using r1 by simp
  then have "(of_int K :: rat) < of_int (2 ^ 53)" by simp
  then have "K < 2 ^ 53" by (simp only: of_int_less_iff)
  then have "K \<le> 2 ^ 53 - 1" by simp
  then have "(of_int K :: rat) \<le> of_int (2 ^ 53 - 1)" by (simp only: of_int_le_iff)
  then have "(of_int K :: rat) \<le> 2 ^ 53 - 1" by simp
  then have "of_int K / (2::rat) ^ 53 \<le> (2 ^ 53 - 1) / 2 ^ 53" by (simp add: divide_right_mono)
  then show ?thesis unfolding rk by (simp add: diff_divide_distrib)
qed


text \<open>
  The rounded product of a double in \<open>[0, 1)\<close> and an integer \<open>m\<close> up to \<open>2^53\<close> stays
  below \<open>m\<close>: the exact product is at least \<open>m / 2^53\<close> below \<open>m\<close>, which is more than half
  a unit in the last place of any number below \<open>m\<close>, and \<open>m\<close> is a multiple of that unit.
\<close>

lemma js_times_below:
  fixes m :: nat
  assumes d: "is_double r" and r0: "0 \<le> r" and r1: "r < 1" and m1: "1 \<le> m" and m53: "m \<le> 2 ^ 53"
  shows "0 \<le> js_times r (of_nat m) \<and> js_times r (of_nat m) < of_nat m"
proof (cases "r = 0")
  case True
  then show ?thesis using m1 by (simp add: js_times_def round_double_def)
next
  case False
  define x where "x = r * of_nat m"
  have mr: "(1::rat) \<le> of_nat m" using m1 by simp
  then have mr0: "(0::rat) < of_nat m" by linarith
  have x0: "0 < x" using False r0 mr0 by (simp add: x_def)
  have "r \<le> 1 - 1 / 2 ^ 53" by (rule double_below_one[OF d r1])
  then have "r * of_nat m \<le> (1 - 1 / 2 ^ 53) * of_nat m" using mr0 by (intro mult_right_mono) simp_all
  then have xm: "x \<le> of_nat m - of_nat m / 2 ^ 53" by (simp add: x_def algebra_simps)
  have "0 < (of_nat m :: rat) / 2 ^ 53" using mr0 by simp
  with xm have xlt: "x < of_nat m" by linarith
  define E where "E = max (exponent2 x) (- 1022)"
  define u where "u = (2::rat) powi (E - 52)"
  have ux: "ulp x = u" using x0 by (simp add: ulp_def u_def E_def)
  have Elt: "(2::rat) powi E < of_nat m"
  proof (cases "exponent2 x \<le> - 1022")
    case True
    then have "E = - int 1022" by (simp add: E_def)
    then have "(2::rat) powi E = 1 / 2 ^ 1022" by (simp only: powi_neg)
    also have "\<dots> < 1" by simp
    finally show ?thesis using mr by linarith
  next
    case False
    then have "E = exponent2 x" by (simp add: E_def)
    then show ?thesis using exponent2_le[OF x0] xlt by simp
  qed
  have E53: "E < 53"
  proof (rule ccontr)
    assume "\<not> E < 53"
    then have "(2::rat) powi 53 \<le> 2 powi E" by (intro power_int_increasing) simp_all
    moreover have "(2::rat) powi 53 = 2 ^ 53" by (simp add: power_int_def)
    moreover have "(of_nat m :: rat) \<le> of_nat (2 ^ 53)" using m53 by (simp only: of_nat_le_iff)
    then have "(of_nat m :: rat) \<le> 2 ^ 53" by simp
    ultimately show False using Elt by linarith
  qed
  define n where "n = nat (52 - E)"
  have uE: "u = 2 powi E / 2 ^ 52"
    unfolding u_def by (simp add: power_int_diff)
  have "E - 52 = - int n" using E53 by (simp add: n_def)
  then have "u = 2 powi (- int n)" by (simp add: u_def)
  then have un: "u = 1 / 2 ^ n" by (simp only: powi_neg)
  have u0: "0 < u" by (simp add: un)
  define M where "M = int m * 2 ^ n"
  have Mu: "of_nat m / u = of_int M" by (simp add: un M_def)
  have "u / 2 = 2 powi E / 2 ^ 53" by (simp add: uE)
  also have "\<dots> < of_nat m / 2 ^ 53" using Elt by (intro divide_strict_right_mono) simp_all
  finally have "u / 2 < of_nat m / 2 ^ 53" .
  then have "x < of_nat m - u / 2" using xm by linarith
  then have "x / u < (of_nat m - u / 2) / u" using u0 by (intro divide_strict_right_mono)
  also have "\<dots> = of_nat m / u - 1 / 2" using u0 by (simp add: diff_divide_distrib)
  finally have "x / u < of_int M - 1 / 2" by (simp only: Mu)
  then have k: "round_half_even (x / u) \<le> M - 1" by (rule round_half_even_less)
  have "0 \<le> x / u" using x0 u0 by simp
  then have k0: "0 \<le> round_half_even (x / u)" by (rule round_half_even_nonneg)
  have rd: "round_double x = of_int (round_half_even (x / u)) * u" using x0 by (simp add: round_double_def ux)
  have "(of_int (round_half_even (x / u)) :: rat) \<le> of_int (M - 1)" using k by (simp only: of_int_le_iff)
  then have "of_int (round_half_even (x / u)) * u \<le> of_int (M - 1) * u"
    using u0 by (intro mult_right_mono) simp_all
  also have "\<dots> = of_int M * u - u" by (simp add: algebra_simps)
  also have "of_int M * u = of_nat m" using Mu u0 by (simp add: nonzero_divide_eq_eq)
  also have "of_nat m - u < of_nat m" using u0 by simp
  finally have "round_double x < of_nat m" by (simp only: rd)
  moreover have "0 \<le> round_double x" using k0 u0 by (simp add: rd)
  ultimately show ?thesis by (simp add: js_times_def x_def)
qed

subsection \<open>The play order is a permutation\<close>

text \<open>A draw in \<open>[0, 1)\<close> multiplied by \<open>i + 1\<close> and floored is an index in \<open>0..i\<close>.\<close>

lemma floor_draw:
  assumes "is_double r" and "0 \<le> r" and "r < 1" and "i + 1 \<le> 2 ^ 53"
  shows "nat \<lfloor>js_times r (of_nat (i + 1))\<rfloor> \<le> i"
proof -
  have "js_times r (of_nat (i + 1)) < of_nat (i + 1)"
    using js_times_below[OF assms(1-3) _ assms(4)] by simp
  then have "\<lfloor>js_times r (of_nat (i + 1))\<rfloor> < int (i + 1)"
    by (simp add: floor_less_iff)
  then show ?thesis by linarith
qed

text \<open>Every pass of the loop swaps two positions inside the array, so the elements stay.\<close>

lemma shuffle_loop_mset:
  "(\<forall>k. is_double (rnd k) \<and> 0 \<le> rnd k \<and> rnd k < 1) \<Longrightarrow> i < length order \<or> i = 0 \<Longrightarrow>
   length order \<le> 2 ^ 53 \<Longrightarrow> mset (shuffle_loop rnd k i order) = mset order"
proof (induction rnd k i order rule: shuffle_loop.induct)
  case (1 rnd k i order)
  show ?case
  proof (cases "0 < i")
    case False
    then show ?thesis by (simp add: shuffle_loop.simps)
  next
    case True
    with 1(3) have il: "i < length order" by auto
    then have i53: "i + 1 \<le> 2 ^ 53" using 1(4) by linarith
    define j where "j = nat \<lfloor>js_times (rnd k) (of_nat (i + 1))\<rfloor>"
    have ji: "j \<le> i" unfolding j_def using floor_draw[OF _ _ _ i53] 1(2) by blast
    let ?o = "order[i := order ! j, j := order ! i]"
    have m: "mset ?o = mset order" using mset_swap[of j order i] il ji by simp
    have b: "i - 1 < length ?o \<or> i - 1 = 0" using il by (simp add: less_imp_diff_less)
    have l: "length ?o \<le> 2 ^ 53" using 1(4) by simp
    have "mset (shuffle_loop rnd (k + 1) (i - 1) ?o) = mset ?o"
      by (rule 1(1)[OF True j_def 1(2) b l])
    with m show ?thesis
      using True by (subst shuffle_loop.simps) (simp add: j_def Let_def)
  qed
qed

lemma generatePlayOrder_mset:
  assumes "\<forall>k. is_double (rnd k) \<and> 0 \<le> rnd k \<and> rnd k < 1" and "n < 2 ^ 32"
  shows "mset (shuffle_loop rnd 0 (n - 1) [0..<n]) = mset [0..<n]"
proof -
  have "(2::nat) ^ 32 \<le> 2 ^ 53" by simp
  then have "length [0..<n] \<le> 2 ^ 53" using assms(2) by simp
  moreover have "n - 1 < length [0..<n] \<or> n - 1 = 0" by auto
  ultimately show ?thesis using assms(1) by (intro shuffle_loop_mset)
qed

lemma array_length_check: "(2 ^ 32 \<le> int n) = (2 ^ 32 \<le> n)"
proof -
  have "(2::int) ^ 32 = int (2 ^ 32)" by simp
  then show ?thesis by (simp only: of_nat_le_iff)
qed

lemma half_is_double: "is_double (1/2)"
  by code_simp

lemma generatePlayOrder_half: "generatePlayOrder (\<lambda>k. 1/2) 5 = Inr [0, 3, 1, 4, 2]"
  by code_simp

text \<open>
  A draw whose exact product with 6 lies just below 5 and whose product in doubles is
  5: the first pass swaps position 5 with itself.
\<close>

lemma generatePlayOrder_rounded_draw:
  "is_double (3752999689475413 / 2 ^ 52)
   \<and> \<lfloor>(3752999689475413 / 2 ^ 52 :: rat) * 6\<rfloor> = 4
   \<and> \<lfloor>js_times (3752999689475413 / 2 ^ 52) 6\<rfloor> = 5
   \<and> generatePlayOrder (\<lambda>k. 3752999689475413 / 2 ^ 52) 6 = Inr [0, 1, 2, 3, 4, 5]"
  by code_simp

text \<open>
  C8. For every length \<open>n\<close> and every run of \<open>Math.random()\<close> (each draw a double in
  \<open>[0, 1)\<close>), the play order produced by \<open>generatePlayOrder\<close> is a permutation of
  \<open>[0..n-1]\<close>: sorting it gives \<open>[0..n-1]\<close>, its length is \<open>n\<close>, and every index below \<open>n\<close>
  occurs in it exactly once. A length of \<open>2^32\<close> or more is no array length, and no play
  order is produced.
\<close>

theorem generatePlayOrder_permutation:
  assumes "\<forall>k. is_double (rnd k) \<and> 0 \<le> rnd k \<and> rnd k < 1"
  shows "if n < 2 ^ 32
         then \<exists>order. generatePlayOrder rnd n = Inr order
                \<and> sort order = [0..<n] \<and> length order = n
                \<and> (\<forall>i < n. count_list order i = 1)
         else generatePlayOrder rnd n = Inl RangeError"
proof (cases "n < 2 ^ 32")
  case False
  then show ?thesis by (simp add: generatePlayOrder_def array_length_check)
next
  case True
  define order where "order = shuffle_loop rnd 0 (n - 1) [0..<n]"
  have g: "generatePlayOrder rnd n = Inr order"
    using True by (simp add: generatePlayOrder_def array_length_check order_def)
  have m: "mset order = mset [0..<n]"
    unfolding order_def using assms True by (rule generatePlayOrder_mset)
  have s: "sort order = [0..<n]"
    by (rule properties_for_sort) (simp_all add: m)
  have l: "length order = n"
    using mset_eq_length[OF m] by simp
  have c: "count_list order i = 1" if "i < n" for i
  proof -
    have "count (mset order) i = count (mset [0..<n]) i"
      by (simp only: m)
    also have "\<dots> = 1" using that distinct_count_atmost_1[of "[0..<n]"] by simp
    finally show ?thesis by (simp add: count_mset)
  qed
  from g s l c True show ?thesis by auto
qed

theorem generatePlayOrder_permutation_witness:
  "(\<forall>k::nat. is_double (1/2) \<and> (0::rat) \<le> 1/2 \<and> (1/2::rat) < 1)
   \<and> generatePlayOrder (\<lambda>k. 1/2) 5 = Inr [0, 3, 1, 4, 2]
   \<and> sort [0, 3, 1, 4, 2 :: nat] = [0..<5]
   \<and> count_list [0, 3, 1, 4, 2 :: nat] 3 = 1"
proof -
  have h: "\<forall>k::nat. is_double (1/2) \<and> (0::rat) \<le> 1/2 \<and> (1/2::rat) < 1"
    using half_is_double by simp
  from generatePlayOrder_permutation[of "\<lambda>k. 1/2" 5, OF h] h generatePlayOrder_half
  show ?thesis by auto
qed

subsection \<open>Navigation\<close>

lemma js_mod_nonneg: "0 \<le> a \<Longrightarrow> 0 < b \<Longrightarrow> js_mod (Num a) (Num b) = Num (a mod b)"
  by (cases "a = 0") simp_all

lemma next_index:
  "snippets s \<noteq> [] \<Longrightarrow> currentIndex s = Num i \<Longrightarrow> 0 \<le> i \<Longrightarrow>
   currentIndex (handleNext s) = Num ((i + 1) mod int (length (snippets s)))"
  by (simp add: handleNext_def js_mod_nonneg)

lemma previous_index:
  "snippets s \<noteq> [] \<Longrightarrow> currentIndex s = Num i \<Longrightarrow> 0 \<le> i \<Longrightarrow>
   currentIndex (handlePrevious s) = Num ((i - 1 + int (length (snippets s))) mod int (length (snippets s)))"
proof -
  assume a: "snippets s \<noteq> []" "currentIndex s = Num i" "0 \<le> i"
  let ?n = "int (length (snippets s))"
  have n0: "0 < ?n" using a by simp
  then have "0 \<le> i - 1 + ?n" using a by linarith
  then have "js_mod (Num (i - 1 + ?n)) (Num ?n) = Num ((i - 1 + ?n) mod ?n)"
    using n0 by (rule js_mod_nonneg)
  then show ?thesis using a by (simp add: handlePrevious_def)
qed

lemma snippets_handleNext [simp]: "snippets (handleNext s) = snippets s"
  by (simp add: handleNext_def)
lemma snippets_handlePrevious [simp]: "snippets (handlePrevious s) = snippets s"
  by (simp add: handlePrevious_def)
lemma playOrder_handleNext [simp]: "playOrder (handleNext s) = playOrder s"
  by (simp add: handleNext_def)
lemma playOrder_handlePrevious [simp]: "playOrder (handlePrevious s) = playOrder s"
  by (simp add: handlePrevious_def)

lemma getCurrentTrack_cong:
  "snippets s = snippets t \<Longrightarrow> playOrder s = playOrder t \<Longrightarrow>
   js_mod (currentIndex s) (Num (int (length (playOrder t)))) = js_mod (currentIndex t) (Num (int (length (playOrder t)))) \<Longrightarrow>
   getCurrentTrack s = getCurrentTrack t"
  by (simp add: getCurrentTrack_def split: option.splits)

text \<open>
  C7. For every non-empty track list and every index the sequencer can hold (a
  non-negative integer), \<open>next()\<close> then \<open>previous()\<close>, and \<open>previous()\<close> then \<open>next()\<close>,
  leave \<open>currentIndex % length\<close> as it was; with a play order as long as the track list
  the current track is therefore the same as before.
\<close>

theorem next_previous_roundtrip:
  assumes ne: "snippets s \<noteq> []" and ci: "currentIndex s = Num i" and i0: "0 \<le> i"
  shows "js_mod (currentIndex (handlePrevious (handleNext s))) (Num (int (length (snippets s))))
           = js_mod (currentIndex s) (Num (int (length (snippets s))))
       \<and> js_mod (currentIndex (handleNext (handlePrevious s))) (Num (int (length (snippets s))))
           = js_mod (currentIndex s) (Num (int (length (snippets s))))
       \<and> (length (playOrder s) = length (snippets s) \<longrightarrow>
            getCurrentTrack (handlePrevious (handleNext s)) = getCurrentTrack s
          \<and> getCurrentTrack (handleNext (handlePrevious s)) = getCurrentTrack s)"
proof -
  let ?n = "int (length (snippets s))"
  have n0: "0 < ?n" using ne by simp
  have a0: "0 \<le> (i + 1) mod ?n" and b0: "0 \<le> (i - 1 + ?n) mod ?n" using n0 by simp_all
  have np: "currentIndex (handlePrevious (handleNext s)) = Num (((i + 1) mod ?n - 1 + ?n) mod ?n)"
    using previous_index[of "handleNext s" "(i + 1) mod ?n"] next_index[OF ne ci i0] ne a0 by simp
  have pn: "currentIndex (handleNext (handlePrevious s)) = Num (((i - 1 + ?n) mod ?n + 1) mod ?n)"
    using next_index[of "handlePrevious s" "(i - 1 + ?n) mod ?n"] previous_index[OF ne ci i0] ne b0 by simp
  have e1: "((i + 1) mod ?n - 1 + ?n) mod ?n = i mod ?n"
    by (simp add: mod_simps)
  have e2: "((i - 1 + ?n) mod ?n + 1) mod ?n = i mod ?n"
    by (simp add: mod_simps)
  have q: "js_mod (Num (i mod ?n)) (Num ?n) = Num (i mod ?n)"
    using js_mod_nonneg[of "i mod ?n" ?n] n0 by (simp del: js_mod.simps)
  have r: "js_mod (Num i) (Num ?n) = Num (i mod ?n)"
    using i0 n0 by (rule js_mod_nonneg)
  have m1: "js_mod (currentIndex (handlePrevious (handleNext s))) (Num ?n) = js_mod (currentIndex s) (Num ?n)"
    by (simp only: np e1 ci q r)
  have m2: "js_mod (currentIndex (handleNext (handlePrevious s))) (Num ?n) = js_mod (currentIndex s) (Num ?n)"
    by (simp only: pn e2 ci q r)
  have t: "getCurrentTrack (handlePrevious (handleNext s)) = getCurrentTrack s
          \<and> getCurrentTrack (handleNext (handlePrevious s)) = getCurrentTrack s"
    if "length (playOrder s) = length (snippets s)"
    using that m1 m2 by (auto intro!: getCurrentTrack_cong)
  from m1 m2 t show ?thesis by blast
qed

theorem next_previous_roundtrip_witness:
  "snippets feed_example \<noteq> [] \<and> currentIndex feed_example = Num 0
   \<and> js_mod (currentIndex (handlePrevious (handleNext feed_example))) (Num 3) = Num 0
   \<and> js_mod (currentIndex (handleNext (handlePrevious feed_example))) (Num 3) = Num 0
   \<and> getCurrentTrack (handlePrevious (handleNext feed_example)) = Some (track ''B'')
   \<and> getCurrentTrack (handleNext (handlePrevious feed_example)) = Some (track ''B'')"
proof -
  have ne: "snippets feed_example \<noteq> []" and ci: "currentIndex feed_example = Num 0"
    and l: "length (snippets feed_example) = 3" and p: "length (playOrder feed_example) = 3"
    by (simp_all add: feed_example_def)
  have m: "js_mod (currentIndex feed_example) (Num 3) = Num 0" by (simp add: ci)
  have t: "getCurrentTrack feed_example = Some (track ''B'')" by code_simp
  from next_previous_roundtrip[OF ne ci] ne ci l p m t show ?thesis by simp
qed

subsection \<open>Liking the current track\<close>

text \<open>What \<open>handleDoubleTap\<close> does: it flips \<open>liked\<close> of \<open>snippets[currentIndex]\<close>.\<close>

lemma handleDoubleTap_at_currentIndex:
  assumes "currentIndex s = Num i" and "0 \<le> i" and "i < int (length (snippets s))"
  shows "handleDoubleTap s =
           Inr (s\<lparr>snippets := (snippets s)[nat i :=
                  (snippets s ! nat i)\<lparr>liked := Some (\<not> truthy (liked (snippets s ! nat i)))\<rparr>]\<rparr>)"
  using assms by (simp add: handleDoubleTap_def)

text \<open>
  C2. The like toggle should flip \<open>liked\<close> of the track at the current play-order
  position, \<open>tracks[PlayOrder[currentIndex mod length]]\<close>. The code at tracks A, B, C with
  play order B, A, C and \<open>currentIndex = 0\<close>: the current track is B, and the toggle
  replaces the entry of A, leaving B as it was.
\<close>

theorem toggle_like_ignores_play_order:
  "getCurrentTrack feed_example = Some (track ''B'')
   \<and> handleDoubleTap feed_example
        = Inr (feed_example\<lparr>snippets := [(track ''A'')\<lparr>liked := Some True\<rparr>, track ''B'', track ''C'']\<rparr>)"
  by code_simp

subsection \<open>Navigation on an empty track list\<close>

text \<open>
  With an empty track list both handlers evaluate the modulo with the divisor 0, which
  gives \<open>NaN\<close>; and once \<open>NaN\<close>, always \<open>NaN\<close>, whatever the track list.
\<close>

lemma navigation_on_empty_list_NaN:
  assumes "snippets s = []"
  shows "currentIndex (handleNext s) = NaN \<and> currentIndex (handlePrevious s) = NaN"
proof -
  have z: "js_mod x (Num 0) = NaN" for x by (cases x) simp_all
  show ?thesis using assms by (simp add: handleNext_def handlePrevious_def z)
qed

lemma nan_is_sticky:
  "currentIndex s = NaN \<Longrightarrow> currentIndex (handleNext s) = NaN \<and> currentIndex (handlePrevious s) = NaN"
  by (simp add: handleNext_def handlePrevious_def)

text \<open>
  The sibling \<open>getCurrentTrack\<close> does guard its modulo: on an empty list it returns
  \<open>null\<close> before dividing.
\<close>

lemma getCurrentTrack_guards_empty: "snippets s = [] \<Longrightarrow> getCurrentTrack s = None"
  by (simp add: getCurrentTrack_def)

text \<open>
  From a non-negative index on a non-empty list the handlers only reach indices within
  the list. So a numeric \<open>currentIndex\<close>, which starts at 0, is never negative.
\<close>

lemma index_stays_in_range:
  assumes "snippets s \<noteq> []" and "currentIndex s = Num i" and "0 \<le> i"
  shows "\<exists>j. currentIndex (handleNext s) = Num j \<and> 0 \<le> j \<and> j < int (length (snippets s))"
    and "\<exists>j. currentIndex (handlePrevious s) = Num j \<and> 0 \<le> j \<and> j < int (length (snippets s))"
  using next_index[OF assms] previous_index[OF assms] assms(1) by simp_all

lemma feed_after_early_key_eval:
  "feed_after_early_key =
     \<lparr>snippets = [track ''A'', track ''B'', track ''C''], currentIndex = NaN,
      isPlaying = True, autoplayEnabled = False, playOrder = [0, 2, 1]\<rparr>"
  by code_simp

text \<open>
  C9. On an empty track list \<open>next()\<close> and \<open>previous()\<close> should not throw, every modulo
  on \<open>currentIndex\<close> being guarded against a length of zero. The code at a key press
  while the list is still empty (\<open>currentIndex = 0\<close>): nothing throws, but the modulo is
  taken unguarded, \<open>(0 + 1) % 0\<close> and \<open>(0 - 1 + 0) % 0\<close>, and leaves \<open>NaN\<close> in
  \<open>currentIndex\<close>. When the listing with the tracks A, B, C then arrives, the index is
  still \<open>NaN\<close>: there is no current track, \<open>next()\<close> and \<open>previous()\<close> keep \<open>NaN\<close>, and
  a double tap throws a TypeError.
\<close>

theorem early_key_freezes_feed:
  "snippets feed_empty = [] \<and> currentIndex feed_empty = Num 0
   \<and> currentIndex (handleNext feed_empty) = NaN
   \<and> currentIndex (handlePrevious feed_empty) = NaN
   \<and> snippets feed_after_early_key = [track ''A'', track ''B'', track ''C'']
   \<and> playOrder feed_after_early_key = [0, 2, 1]
   \<and> currentIndex feed_after_early_key = NaN
   \<and> getCurrentTrack feed_after_early_key = None
   \<and> currentIndex (handleNext feed_after_early_key) = NaN
   \<and> currentIndex (handlePrevious feed_after_early_key) = NaN
   \<and> handleDoubleTap feed_after_early_key = Inl TypeError"
  by code_simp

section \<open>Verified properties: preload cache manager\<close>

lemma keys_map_set: "map fst (map_set c u v) = (if u \<in> set (map fst c) then map fst c else map fst c @ [u])"
  by (simp add: map_set_def update_keys)

lemma keys_map_delete: "map fst (map_delete c u) = removeAll u (map fst c)"
  by (simp add: map_delete_def delete_keys)

lemma map_has_keys: "map_has c u = (u \<in> set (map fst c))"
  by (simp add: map_has_def map_of_eq_None_iff)

lemma map_get_keys: "map_get c u = Some e \<Longrightarrow> u \<in> set (map fst c)"
  unfolding map_get_def by (metis map_of_eq_None_iff option.distinct(1) set_map)

lemma map_get_None: "(map_get c u = None) = (u \<notin> fst ` set c)"
  by (simp add: map_get_def map_of_eq_None_iff)

lemma keys_onCanPlay [simp]: "map fst (onCanPlay u c) = map fst c"
proof (cases "map_get c u")
  case None
  then show ?thesis by (simp add: onCanPlay_def)
next
  case (Some e)
  then show ?thesis using map_get_keys[OF Some] by (simp add: onCanPlay_def keys_map_set)
qed

lemma keys_onError [simp]: "map fst (onError u c) = map fst c"
proof (cases "map_get c u")
  case None
  then show ?thesis by (simp add: onError_def)
next
  case (Some e)
  then show ?thesis using map_get_keys[OF Some] by (simp add: onError_def keys_map_set)
qed

text \<open>The keys after the synchronous part of preloadAudio.\<close>

lemma keys_preloadAudio_start:
  "distinct (map fst c) \<Longrightarrow>
   map fst (snd (preloadAudio_start u c)) = map fst c
   \<or> (map_size c < maxPreloadCount \<and> u \<notin> set (map fst c) \<and> map fst (snd (preloadAudio_start u c)) = map fst c @ [u])
   \<or> (map_size c < maxPreloadCount \<and> u \<in> set (map fst c) \<and> map fst (snd (preloadAudio_start u c)) = removeAll u (map fst c) @ [u])"
  by (auto simp: preloadAudio_start_def Let_def keys_map_set keys_map_delete map_has_keys split: option.splits)

lemma length_removeAll_distinct: "distinct xs \<Longrightarrow> x \<in> set xs \<Longrightarrow> Suc (length (removeAll x xs)) = length xs"
  by (induction xs) (auto)

lemma preloadAudio_start_ok:
  assumes "cache_ok c" shows "cache_ok (snd (preloadAudio_start u c))"
proof -
  have d: "distinct (map fst c)" and l: "length c \<le> 3" using assms by (simp_all add: cache_ok_def map_size_def maxPreloadCount_def)
  from keys_preloadAudio_start[OF d, of u]
  show ?thesis
  proof (elim disjE conjE)
    assume k: "map fst (snd (preloadAudio_start u c)) = map fst c"
    then have "length (snd (preloadAudio_start u c)) = length c" by (metis length_map)
    with k d l show ?thesis by (simp add: cache_ok_def map_size_def maxPreloadCount_def)
  next
    assume k: "map fst (snd (preloadAudio_start u c)) = map fst c @ [u]" and m: "map_size c < maxPreloadCount" and n: "u \<notin> set (map fst c)"
    then have "length (snd (preloadAudio_start u c)) = length c + 1" by (metis length_map length_append_singleton Suc_eq_plus1)
    with k d m n show ?thesis by (simp add: cache_ok_def map_size_def maxPreloadCount_def)
  next
    assume k: "map fst (snd (preloadAudio_start u c)) = removeAll u (map fst c) @ [u]" and m: "map_size c < maxPreloadCount" and n: "u \<in> set (map fst c)"
    have "length (map fst (snd (preloadAudio_start u c))) = length (map fst c)"
      using length_removeAll_distinct[OF d n] by (simp add: k)
    then have "length (snd (preloadAudio_start u c)) = length c" by simp
    with k d m n show ?thesis by (simp add: cache_ok_def map_size_def maxPreloadCount_def distinct_removeAll)
  qed
qed

lemma cache_processPreloadQueue:
  "preloadedAudios (processPreloadQueue s) = preloadedAudios s
   \<or> (\<exists>u. preloadedAudios (processPreloadQueue s) = snd (preloadAudio_start u (preloadedAudios s)))"
proof (cases "isPreloading s \<or> preloadQueue s = []")
  case True
  then show ?thesis by (auto simp: processPreloadQueue_def)
next
  case False
  then obtain u rest where q: "preloadQueue s = u # rest" by (cases "preloadQueue s") auto
  have "preloadedAudios (processPreloadQueue s) = snd (preloadAudio_start u (preloadedAudios s))"
    using False q by (simp add: processPreloadQueue_def split: prod.splits)
  then show ?thesis by blast
qed

lemma cache_finally [simp]: "preloadedAudios (finally_block s) = preloadedAudios s"
  by (simp add: finally_block_def Let_def)

lemma cache_after_preload [simp]: "preloadedAudios (after_preload s) = preloadedAudios s"
  by (simp add: after_preload_def)

lemma cache_after_preload_error [simp]: "preloadedAudios (after_preload_error s) = preloadedAudios s"
  by (simp add: after_preload_error_def split: list.splits)

lemma cache_ok_keys: "map fst c = map fst c' \<Longrightarrow> cache_ok c' \<Longrightarrow> cache_ok c"
  unfolding cache_ok_def map_size_def by (metis length_map)

text \<open>How one event changes the cache.\<close>

lemma cache_step:
  "map fst (preloadedAudios (preload_step e s)) = map fst (preloadedAudios s)
   \<or> (\<exists>u. preloadedAudios (preload_step e s) = snd (preloadAudio_start u (preloadedAudios s)))"
proof (cases e)
  case (Warm u)
  then show ?thesis using cache_processPreloadQueue[of "s\<lparr>preloadQueue := preloadQueue s @ [u]\<rparr>"]
    by (auto simp: queuePreload_def)
next
  case TimerFired
  then show ?thesis using cache_processPreloadQueue[of "s\<lparr>timers := timers s - 1\<rparr>"]
    by auto
next
  case PreloadCanPlay
  then show ?thesis by (auto split: option.splits preload_wait.splits)
next
  case PreloadFailed
  then show ?thesis by (auto split: option.splits preload_wait.splits)
next
  case PreloadReturned
  then show ?thesis by (auto split: option.splits preload_wait.splits)
qed

lemma preload_step_ok: "cache_ok (preloadedAudios s) \<Longrightarrow> cache_ok (preloadedAudios (preload_step e s))"
  using cache_step[of e s] by (auto intro: cache_ok_keys preloadAudio_start_ok)

text \<open>
  C5. Every operation of the preload manager (a warm request, a queue pass started by a
  timer, the end of a preparation, successful or failed) preserves the invariant of the
  cache: at most 3 entries, and no URL twice. Hence it holds after any sequence of them.
\<close>

theorem preload_cache_bounded:
  "cache_ok (preloadedAudios s) \<Longrightarrow> cache_ok (preloadedAudios (preload_run es s))"
  unfolding preload_run_def
  by (induction es arbitrary: s) (auto intro: preload_step_ok)

subsection \<open>The cache never shrinks\<close>

lemma preloadAudio_start_full:
  "maxPreloadCount \<le> map_size c \<Longrightarrow> preloadAudio_start u c = (False, c)"
  by (simp add: preloadAudio_start_def)

lemma preloadAudio_start_grows:
  assumes d: "distinct (map fst c)"
  shows "length c \<le> length (snd (preloadAudio_start u c))
       \<and> set (map fst c) \<subseteq> set (map fst (snd (preloadAudio_start u c)))
       \<and> distinct (map fst (snd (preloadAudio_start u c)))"
proof -
  let ?c' = "snd (preloadAudio_start u c)"
  from keys_preloadAudio_start[OF d, of u]
  consider (same) "map fst ?c' = map fst c"
    | (new) "u \<notin> set (map fst c)" "map fst ?c' = map fst c @ [u]"
    | (again) "u \<in> set (map fst c)" "map fst ?c' = removeAll u (map fst c) @ [u]"
    by blast
  then show ?thesis
  proof cases
    case same
    then have "length ?c' = length c" by (metis length_map)
    with same d show ?thesis by simp
  next
    case new
    then have "length (map fst ?c') = length c + 1" by simp
    then have "length ?c' = length c + 1" by simp
    with new d show ?thesis by auto
  next
    case again
    then have "length (map fst ?c') = length (map fst c)"
      using length_removeAll_distinct[OF d again(1)] by simp
    then have "length ?c' = length c" by simp
    with again d show ?thesis by (auto simp: distinct_removeAll)
  qed
qed

lemma preload_step_grows:
  assumes d: "distinct (map fst (preloadedAudios s))"
  shows "length (preloadedAudios s) \<le> length (preloadedAudios (preload_step e s))
       \<and> set (map fst (preloadedAudios s)) \<subseteq> set (map fst (preloadedAudios (preload_step e s)))
       \<and> distinct (map fst (preloadedAudios (preload_step e s)))"
proof -
  from cache_step[of e s]
  show ?thesis
  proof
    assume k: "map fst (preloadedAudios (preload_step e s)) = map fst (preloadedAudios s)"
    then have "length (preloadedAudios (preload_step e s)) = length (preloadedAudios s)"
      by (metis length_map)
    with k d show ?thesis by simp
  next
    assume "\<exists>u. preloadedAudios (preload_step e s) = snd (preloadAudio_start u (preloadedAudios s))"
    then obtain u where "preloadedAudios (preload_step e s) = snd (preloadAudio_start u (preloadedAudios s))" ..
    with preloadAudio_start_grows[OF d, of u] show ?thesis by simp
  qed
qed

lemma preload_step_full:
  assumes f: "maxPreloadCount \<le> map_size (preloadedAudios s)"
  shows "map fst (preloadedAudios (preload_step e s)) = map fst (preloadedAudios s)"
  using cache_step[of e s] preloadAudio_start_full[OF f] by auto

lemma preload_run_grows:
  "distinct (map fst (preloadedAudios s)) \<Longrightarrow>
   length (preloadedAudios s) \<le> length (preloadedAudios (preload_run es s))
   \<and> set (map fst (preloadedAudios s)) \<subseteq> set (map fst (preloadedAudios (preload_run es s)))"
proof (induction es arbitrary: s)
  case Nil
  then show ?case by (simp add: preload_run_def)
next
  case (Cons e es)
  from preload_step_grows[OF Cons.prems, of e]
  have g: "length (preloadedAudios s) \<le> length (preloadedAudios (preload_step e s))"
    and k: "set (map fst (preloadedAudios s)) \<subseteq> set (map fst (preloadedAudios (preload_step e s)))"
    and d: "distinct (map fst (preloadedAudios (preload_step e s)))" by simp_all
  have r: "preload_run (e # es) s = preload_run es (preload_step e s)"
    by (simp add: preload_run_def)
  from Cons.IH[OF d] g k show ?case unfolding r by auto
qed

lemma preload_run_full:
  "maxPreloadCount \<le> map_size (preloadedAudios s) \<Longrightarrow>
   map fst (preloadedAudios (preload_run es s)) = map fst (preloadedAudios s)"
proof (induction es arbitrary: s)
  case Nil
  then show ?case by (simp add: preload_run_def)
next
  case (Cons e es)
  have k: "map fst (preloadedAudios (preload_step e s)) = map fst (preloadedAudios s)"
    by (rule preload_step_full[OF Cons.prems])
  then have "length (preloadedAudios (preload_step e s)) = length (preloadedAudios s)"
    by (metis length_map)
  then have f: "maxPreloadCount \<le> map_size (preloadedAudios (preload_step e s))"
    using Cons.prems by (simp add: map_size_def)
  have r: "preload_run (e # es) s = preload_run es (preload_step e s)"
    by (simp add: preload_run_def)
  from Cons.IH[OF f] k show ?case unfolding r by simp
qed

text \<open>
  C10. No operation shrinks the preload cache: over any sequence of operations its size
  does not decrease and every URL in it stays in it (the one deletion, of an errored
  entry at the start of a retry, is followed at once by the insertion of the same URL).
  Once the cache holds 3 entries, its set of URLs is frozen, and every later preparation
  is skipped: \<open>preloadAudio\<close> returns at its size check for every URL.
\<close>

theorem preload_cache_never_shrinks:
  assumes d: "distinct (map fst (preloadedAudios s))"
  shows "map_size (preloadedAudios s) \<le> map_size (preloadedAudios (preload_run es s))
       \<and> set (map fst (preloadedAudios s)) \<subseteq> set (map fst (preloadedAudios (preload_run es s)))
       \<and> (maxPreloadCount \<le> map_size (preloadedAudios s) \<longrightarrow>
            map fst (preloadedAudios (preload_run es s)) = map fst (preloadedAudios s)
          \<and> (\<forall>u. preloadAudio_start u (preloadedAudios (preload_run es s))
                   = (False, preloadedAudios (preload_run es s))))"
proof -
  have a: "map_size (preloadedAudios s) \<le> map_size (preloadedAudios (preload_run es s))"
    and b: "set (map fst (preloadedAudios s)) \<subseteq> set (map fst (preloadedAudios (preload_run es s)))"
    using preload_run_grows[OF d, of es] by (simp_all add: map_size_def)
  have c: "map fst (preloadedAudios (preload_run es s)) = map fst (preloadedAudios s)
          \<and> (\<forall>u. preloadAudio_start u (preloadedAudios (preload_run es s))
                   = (False, preloadedAudios (preload_run es s)))"
    if f: "maxPreloadCount \<le> map_size (preloadedAudios s)"
  proof -
    from f a have "maxPreloadCount \<le> map_size (preloadedAudios (preload_run es s))" by simp
    then show ?thesis using preload_run_full[OF f, of es] preloadAudio_start_full by blast
  qed
  from a b c show ?thesis by blast
qed

lemma three_cached_eval: "three_cached = 
  \<lparr>preloadedAudios = [(''a'', \<lparr>audio_src = ''a'', loaded = True, error = False\<rparr>),
     (''b'', \<lparr>audio_src = ''b'', loaded = True, error = False\<rparr>),
     (''c'', \<lparr>audio_src = [], loaded = False, error = True\<rparr>)],
    preloadQueue = [''c''], isPreloading = False, worker = None, timers = 1\<rparr>"
  by code_simp

lemma after_three_cached_eval: "preload_run [TimerFired, PreloadReturned, Warm ''d'', PreloadReturned] three_cached = 
  \<lparr>preloadedAudios = [(''a'', \<lparr>audio_src = ''a'', loaded = True, error = False\<rparr>),
     (''b'', \<lparr>audio_src = ''b'', loaded = True, error = False\<rparr>),
     (''c'', \<lparr>audio_src = [], loaded = False, error = True\<rparr>)],
    preloadQueue = [], isPreloading = False, worker = None, timers = 0\<rparr>"
  by code_simp

theorem preload_cache_never_shrinks_witness:
  "distinct (map fst (preloadedAudios three_cached))
   \<and> maxPreloadCount \<le> map_size (preloadedAudios three_cached)
   \<and> map fst (preloadedAudios (preload_run [TimerFired, PreloadReturned, Warm ''d'', PreloadReturned] three_cached)) = [''a'', ''b'', ''c'']
   \<and> preloadAudio_start ''d'' (preloadedAudios (preload_run [TimerFired, PreloadReturned, Warm ''d'', PreloadReturned] three_cached))
        = (False, preloadedAudios (preload_run [TimerFired, PreloadReturned, Warm ''d'', PreloadReturned] three_cached))"
proof -
  have d: "distinct (map fst (preloadedAudios three_cached))"
    by (simp add: three_cached_eval)
  have f: "maxPreloadCount \<le> map_size (preloadedAudios three_cached)"
    by (simp add: three_cached_eval maxPreloadCount_def map_size_def)
  from preload_cache_never_shrinks[OF d, of "[TimerFired, PreloadReturned, Warm ''d'', PreloadReturned]"] f d
  show ?thesis by (simp add: three_cached_eval)
qed

theorem preload_cache_bounded_witness:
  "cache_ok (preloadedAudios preload_init)
   \<and> cache_ok (preloadedAudios (preload_run [Warm ''a'', PreloadCanPlay, Warm ''b'', PreloadCanPlay, Warm ''c'', PreloadFailed, TimerFired, PreloadReturned, Warm ''d'', PreloadReturned] preload_init))
   \<and> map fst (preloadedAudios (preload_run [Warm ''a'', PreloadCanPlay, Warm ''b'', PreloadCanPlay, Warm ''c'', PreloadFailed, TimerFired, PreloadReturned, Warm ''d'', PreloadReturned] preload_init)) = [''a'', ''b'', ''c'']"
proof -
  have i: "cache_ok (preloadedAudios preload_init)"
    by (simp add: cache_ok_def preload_init_def map_size_def)
  have e: "map fst (preloadedAudios (preload_run [Warm ''a'', PreloadCanPlay, Warm ''b'', PreloadCanPlay, Warm ''c'', PreloadFailed, TimerFired, PreloadReturned, Warm ''d'', PreloadReturned] preload_init)) = [''a'', ''b'', ''c'']"
    by code_simp
  from preload_cache_bounded[OF i] i e show ?thesis by blast
qed

subsection \<open>Failed preparations and warm requests at capacity\<close>

lemma map_get_map_set: "map_get (map_set c u v) k = (if k = u then Some v else map_get c k)"
  by (simp add: map_get_def map_set_def update_conv')

lemma map_get_onError:
  "map_get (onError u c) u = map_option (\<lambda>e. e\<lparr>error := True, audio_src := []\<rparr>) (map_get c u)"
  by (cases "map_get c u") (simp_all add: onError_def map_get_map_set)

lemma length_onError [simp]: "length (onError u c) = length c"
  by (metis keys_onError length_map)

lemma preloadAudio_start_retry:
  assumes "\<not> is_placeholder u" and "map_size c < maxPreloadCount"
    and "map_get c u = Some e" and "error e"
  shows "preloadAudio_start u c
           = (True, map_set (map_delete c u) u \<lparr>audio_src = u, loaded = False, error = False\<rparr>)"
  using assms by (simp add: preloadAudio_start_def map_has_def map_get_def)

text \<open>
  C3, as the code has it. When the preparation of a URL fails, its entry is flagged
  errored and the URL moves from the head to the tail of the queue, with another pass
  scheduled by a timer; this happens at every failure, not only the first. When the URL
  is alone in the queue and the cache holds fewer than 3 entries, that pass removes the
  errored entry and prepares the URL afresh, which is again a state in which a failure
  re-queues it.
\<close>

theorem preload_failure_requeues:
  assumes w: "worker s = Some (AwaitLoad u)" and q: "preloadQueue s = u # rest" and u: "u \<noteq> []"
  shows "preloadQueue (preload_step PreloadFailed s) = rest @ [u]
       \<and> timers (preload_step PreloadFailed s) = timers s + 1
       \<and> \<not> isPreloading (preload_step PreloadFailed s)
       \<and> map_get (preloadedAudios (preload_step PreloadFailed s)) u
           = map_option (\<lambda>e. e\<lparr>error := True, audio_src := []\<rparr>) (map_get (preloadedAudios s) u)
       \<and> (rest = [] \<and> map_size (preloadedAudios s) < maxPreloadCount \<and> \<not> is_placeholder u
            \<and> map_has (preloadedAudios s) u \<longrightarrow>
            worker (preload_step TimerFired (preload_step PreloadFailed s)) = Some (AwaitLoad u)
          \<and> preloadQueue (preload_step TimerFired (preload_step PreloadFailed s)) = [u]
          \<and> map_get (preloadedAudios (preload_step TimerFired (preload_step PreloadFailed s))) u
               = Some \<lparr>audio_src = u, loaded = False, error = False\<rparr>)"
proof -
  let ?s1 = "preload_step PreloadFailed s"
  have s1: "?s1 = s\<lparr>preloadedAudios := onError u (preloadedAudios s), preloadQueue := rest @ [u],
                    isPreloading := False, worker := None, timers := timers s + 1\<rparr>"
    using w q u by (simp add: after_preload_error_def finally_block_def)
  have a: "preloadQueue ?s1 = rest @ [u]" and b: "timers ?s1 = timers s + 1"
    and c: "\<not> isPreloading ?s1" and c1: "preloadedAudios ?s1 = onError u (preloadedAudios s)"
    by (simp_all add: s1 del: preload_step.simps)
  have e: "map_get (preloadedAudios ?s1) u
           = map_option (\<lambda>e. e\<lparr>error := True, audio_src := []\<rparr>) (map_get (preloadedAudios s) u)"
    by (simp only: c1 map_get_onError)
  have r: "worker (preload_step TimerFired ?s1) = Some (AwaitLoad u)
          \<and> preloadQueue (preload_step TimerFired ?s1) = [u]
          \<and> map_get (preloadedAudios (preload_step TimerFired ?s1)) u
               = Some \<lparr>audio_src = u, loaded = False, error = False\<rparr>"
    if h: "rest = []" "map_size (preloadedAudios s) < maxPreloadCount" "\<not> is_placeholder u"
          "map_has (preloadedAudios s) u"
  proof -
    from h(4) obtain e0 where e0: "map_get (preloadedAudios s) u = Some e0"
      by (auto simp: map_has_def map_get_def)
    have g: "map_get (onError u (preloadedAudios s)) u = Some (e0\<lparr>error := True, audio_src := []\<rparr>)"
      by (simp add: map_get_onError e0)
    have sz: "map_size (onError u (preloadedAudios s)) < maxPreloadCount"
      using h(2) by (simp add: map_size_def)
    have st: "preloadAudio_start u (onError u (preloadedAudios s))
              = (True, map_set (map_delete (onError u (preloadedAudios s)) u) u
                         \<lparr>audio_src = u, loaded = False, error = False\<rparr>)"
      by (rule preloadAudio_start_retry[OF h(3) sz g]) simp
    show ?thesis
      unfolding s1 using h(1) st by (simp add: processPreloadQueue_def map_get_map_set)
  qed
  from a b c e r show ?thesis by blast
qed

lemma retry_in_flight_eval:
  "retry_in_flight =
     \<lparr>preloadedAudios = [(''a.webm'', \<lparr>audio_src = ''a.webm'', loaded = False, error = False\<rparr>)],
      preloadQueue = [''a.webm''], isPreloading = True, worker = Some (AwaitLoad ''a.webm''),
      timers = 0\<rparr>"
  by code_simp

theorem preload_failure_requeues_witness:
  "worker retry_in_flight = Some (AwaitLoad ''a.webm'')
   \<and> preloadQueue retry_in_flight = [''a.webm'']
   \<and> preloadQueue (preload_step PreloadFailed retry_in_flight) = [''a.webm'']
   \<and> timers (preload_step PreloadFailed retry_in_flight) = 1
   \<and> worker (preload_step TimerFired (preload_step PreloadFailed retry_in_flight))
        = Some (AwaitLoad ''a.webm'')"
proof -
  have w: "worker retry_in_flight = Some (AwaitLoad ''a.webm'')"
    and q: "preloadQueue retry_in_flight = ''a.webm'' # []"
    and t: "timers retry_in_flight = 0"
    and m: "map_size (preloadedAudios retry_in_flight) < maxPreloadCount"
    and h: "map_has (preloadedAudios retry_in_flight) ''a.webm''"
    by (simp_all add: retry_in_flight_eval map_size_def maxPreloadCount_def map_has_def)
  have p: "\<not> is_placeholder ''a.webm''" by code_simp
  from preload_failure_requeues[OF w q] w q t m h p show ?thesis
    by (simp del: preload_step.simps)
qed

text \<open>
  C3 as stated fails: after the retry of \<open>a.webm\<close> has failed too, the URL is in the queue
  again with a pass scheduled, and that pass starts a third preparation.
\<close>

theorem preload_retried_more_than_once:
  "preloadQueue (preload_run [Warm ''a.webm'', PreloadFailed, TimerFired, PreloadFailed] preload_init)
     = [''a.webm'']
   \<and> timers (preload_run [Warm ''a.webm'', PreloadFailed, TimerFired, PreloadFailed] preload_init) = 1
   \<and> worker (preload_run [Warm ''a.webm'', PreloadFailed, TimerFired, PreloadFailed, TimerFired]
               preload_init) = Some (AwaitLoad ''a.webm'')"
  by code_simp

text \<open>
  C4, as the code has it. With 3 entries in the cache, a warm request for a new URL
  (no placeholder, not cached, not queued) appends the URL to the queue and leaves the
  cache as it is. With an idle worker and an empty queue the pass started by the request
  skips the preparation, and its continuation removes the URL from the queue again, the
  cache still unchanged.
\<close>

theorem warm_at_capacity_is_queued:
  assumes f: "maxPreloadCount \<le> map_size (preloadedAudios s)" and p: "\<not> is_placeholder u"
    and nq: "u \<notin> set (preloadQueue s)" and nc: "\<not> map_has (preloadedAudios s) u"
  shows "preloadQueue (queuePreload u s) = preloadQueue s @ [u]
       \<and> preloadedAudios (queuePreload u s) = preloadedAudios s
       \<and> (\<not> isPreloading s \<and> preloadQueue s = [] \<longrightarrow>
            worker (queuePreload u s) = Some AwaitReturn
          \<and> preloadQueue (preload_step PreloadReturned (queuePreload u s)) = []
          \<and> preloadedAudios (preload_step PreloadReturned (queuePreload u s)) = preloadedAudios s
          \<and> \<not> isPreloading (preload_step PreloadReturned (queuePreload u s)))"
proof -
  have st: "preloadAudio_start v (preloadedAudios s) = (False, preloadedAudios s)" for v
    using f by (simp add: preloadAudio_start_def)
  have "preloadQueue (queuePreload u s) = preloadQueue s @ [u]
       \<and> preloadedAudios (queuePreload u s) = preloadedAudios s"
    using p nq nc st by (cases "preloadQueue s") (simp_all add: queuePreload_def processPreloadQueue_def)
  moreover have "worker (queuePreload u s) = Some AwaitReturn
          \<and> preloadQueue (preload_step PreloadReturned (queuePreload u s)) = []
          \<and> preloadedAudios (preload_step PreloadReturned (queuePreload u s)) = preloadedAudios s
          \<and> \<not> isPreloading (preload_step PreloadReturned (queuePreload u s))"
    if "\<not> isPreloading s" "preloadQueue s = []"
    using that p nq nc st
    by (simp add: queuePreload_def processPreloadQueue_def after_preload_def finally_block_def)
  ultimately show ?thesis by blast
qed

lemma cache_full_eval: "cache_full = 
  \<lparr>preloadedAudios = [(''a'', \<lparr>audio_src = ''a'', loaded = True, error = False\<rparr>),
     (''b'', \<lparr>audio_src = ''b'', loaded = True, error = False\<rparr>),
     (''c'', \<lparr>audio_src = ''c'', loaded = True, error = False\<rparr>)],
    preloadQueue = [], isPreloading = False, worker = None, timers = 0\<rparr>"
  by code_simp

text \<open>
  C4 as stated fails: with 3 cached entries, the warm request for the new URL \<open>d\<close> puts
  \<open>d\<close> into the queue and starts a pass.
\<close>

theorem warm_at_capacity_not_dropped:
  "map_size (preloadedAudios cache_full) = 3
   \<and> \<not> is_placeholder ''d''
   \<and> ''d'' \<notin> set (preloadQueue cache_full)
   \<and> \<not> map_has (preloadedAudios cache_full) ''d''
   \<and> preloadQueue (queuePreload ''d'' cache_full) = [''d'']
   \<and> isPreloading (queuePreload ''d'' cache_full)"
  by code_simp

theorem warm_at_capacity_is_queued_witness:
  "maxPreloadCount \<le> map_size (preloadedAudios cache_full)
   \<and> preloadQueue (queuePreload ''d'' cache_full) = [''d'']
   \<and> preloadedAudios (queuePreload ''d'' cache_full) = preloadedAudios cache_full
   \<and> preloadQueue (preload_step PreloadReturned (queuePreload ''d'' cache_full)) = []"
proof -
  have f: "maxPreloadCount \<le> map_size (preloadedAudios cache_full)"
    and nq: "''d'' \<notin> set (preloadQueue cache_full)"
    and nc: "\<not> map_has (preloadedAudios cache_full) ''d''"
    and i: "\<not> isPreloading cache_full" and e: "preloadQueue cache_full = []"
    by (simp_all add: cache_full_eval maxPreloadCount_def map_size_def map_has_def)
  have p: "\<not> is_placeholder ''d''" by code_simp
  from warm_at_capacity_is_queued[OF f p nq nc] f i e show ?thesis
    by (simp del: preload_step.simps)
qed

section \<open>Verified properties: playback session controller\<close>

text \<open>
  Bringing the copy of the preloaded element up to date changes nothing else of a
  set-up, and nothing at all of a set-up without a preloaded element.
\<close>

lemma release_preloaded_fields [simp]:
  "retryCount (release_preloaded st a) = retryCount a"
  "isCurrentSetup (release_preloaded st a) = isCurrentSetup a"
  "suspended_at (release_preloaded st a) = suspended_at a"
  "v_audioUrl (release_preloaded st a) = v_audioUrl a"
  by (simp_all add: release_preloaded_def split: option.splits)

lemma release_preloaded_none [simp]:
  "v_preloadedAudio a = None \<Longrightarrow> release_preloaded st a = a"
  by (simp add: release_preloaded_def)

text \<open>The retry counter of a set-up never exceeds \<open>maxRetries\<close>.\<close>

lemma setupAudio_catch_retry_bound:
  "retryCount a \<le> maxRetries \<Longrightarrow> retryCount (fst (setupAudio_catch out a st)) \<le> maxRetries"
  by (induction out a st rule: setupAudio_catch.induct) (auto split: prod.splits)

lemma deliver_retry_bound:
  "retryCount a \<le> maxRetries \<Longrightarrow> retryCount (fst (deliver ev a st)) \<le> maxRetries"
  by (auto simp: setupAudio_catch_retry_bound split: pc.splits media_event.splits prod.splits)

text \<open>\<open>cleanupAudio\<close> releases the whole graph and stops the animation.\<close>

lemma cleanupAudio_releases:
  "audioRef (cleanupAudio st) = None \<and> audioContextRef (cleanupAudio st) = None
   \<and> \<not> analyserRef (cleanupAudio st) \<and> \<not> sourceNodeRef (cleanupAudio st)
   \<and> \<not> animation (cleanupAudio st)"
  by (simp add: cleanupAudio_def)

text \<open>
  Where the flag is checked: a superseded set-up that waits for metadata or for
  buffered data ignores every event, and one that lands in a \<open>catch\<close> block returns.
\<close>

lemma superseded_ignores_load_events:
  assumes "\<not> isCurrentSetup a" and "suspended_at a = AtMetadata \<or> suspended_at a = AtBuffer"
  shows "deliver ev a st = (a, st)"
  using assms by (auto split: media_event.splits)

lemma superseded_catch_returns:
  assumes "\<not> isCurrentSetup a"
  shows "setupAudio_catch (ThrowInner e) a st = (a\<lparr>suspended_at := Returned\<rparr>, st)"
    and "setupAudio_catch (ThrowOuter e) a st = (a\<lparr>suspended_at := Returned\<rparr>, st)"
  using assms by simp_all

text \<open>Over any sequence of renders and events, no set-up retries more than 3 times.\<close>

lemma supersede_retryCount: "retryCount ` set (supersede st as) = retryCount ` set as"
proof (cases "rev as")
  case Nil
  then show ?thesis by (simp add: supersede_def)
next
  case (Cons a older)
  then have "as = rev older @ [a]" by (metis rev_rev_ident rev.simps(2))
  then show ?thesis using Cons by (simp add: supersede_def)
qed

lemma acqs_render:
  "\<exists>out st. acqs (render u playing preloaded autoplay c) =
     supersede (vis c) (acqs c) @
       [fst (setupAudio_catch out
              \<lparr>v_audioUrl = u, v_isPlaying = playing, v_preloadedAudio = preloaded,
               v_autoplayEnabled = autoplay, isCurrentSetup = True, retryCount = 0,
               suspended_at = Returned\<rparr> st)]"
proof -
  let ?a = "\<lparr>v_audioUrl = u, v_isPlaying = playing, v_preloadedAudio = preloaded,
               v_autoplayEnabled = autoplay, isCurrentSetup = True, retryCount = 0,
               suspended_at = Returned\<rparr>"
  define st0 where "st0 = (if acqs c = [] then vis c else cleanupAudio (vis c))"
  define st1 where "st1 = (if u \<noteq> lastUrlRef st0 then (cleanupAudio st0)\<lparr>lastUrlRef := u\<rparr> else st0)"
  obtain out st2 where o: "setupAudio_start ?a st1 = (out, st2)" by (cases "setupAudio_start ?a st1")
  obtain a' st3 where r: "setupAudio_catch out ?a st2 = (a', st3)" by (cases "setupAudio_catch out ?a st2")
  have "render u playing preloaded autoplay c =
          (case setupAudio_start ?a st1 of
             (out, st2) \<Rightarrow>
               (case setupAudio_catch out ?a st2 of
                  (a', st3) \<Rightarrow> \<lparr>vis = st3, acqs = supersede (vis c) (acqs c) @ [a']\<rparr>))"
    unfolding render_def Let_def st1_def st0_def ..
  also have "\<dots> = \<lparr>vis = st3, acqs = supersede (vis c) (acqs c) @ [a']\<rparr>"
    by (simp only: o r prod.case)
  finally have "acqs (render u playing preloaded autoplay c) = supersede (vis c) (acqs c) @ [a']"
    by simp
  then have "acqs (render u playing preloaded autoplay c)
               = supersede (vis c) (acqs c) @ [fst (setupAudio_catch out ?a st2)]"
    using r by simp
  then show ?thesis by blast
qed

lemma component_step_retry_bound:
  assumes "\<forall>a \<in> set (acqs c). retryCount a \<le> maxRetries"
  shows "\<forall>a \<in> set (acqs (component_step e c)). retryCount a \<le> maxRetries"
proof (cases e)
  case (Render u playing preloaded autoplay)
  have s: "\<forall>a \<in> set (supersede (vis c) (acqs c)). retryCount a \<le> maxRetries"
    using assms supersede_retryCount[of "vis c" "acqs c"] by (metis imageE imageI)
  from acqs_render[of u playing preloaded autoplay c]
  obtain out st where
    "acqs (render u playing preloaded autoplay c) =
       supersede (vis c) (acqs c) @
         [fst (setupAudio_catch out
                \<lparr>v_audioUrl = u, v_isPlaying = playing, v_preloadedAudio = preloaded,
                 v_autoplayEnabled = autoplay, isCurrentSetup = True, retryCount = 0,
                 suspended_at = Returned\<rparr> st)]" by blast
  moreover have "retryCount (fst (setupAudio_catch out
                \<lparr>v_audioUrl = u, v_isPlaying = playing, v_preloadedAudio = preloaded,
                 v_autoplayEnabled = autoplay, isCurrentSetup = True, retryCount = 0,
                 suspended_at = Returned\<rparr> st)) \<le> maxRetries"
    by (rule setupAudio_catch_retry_bound) simp
  ultimately show ?thesis using Render s by auto
next
  case (RenderAgain u playing autoplay)
  have s: "\<forall>a \<in> set (supersede (vis c) (acqs c)). retryCount a \<le> maxRetries"
    using assms supersede_retryCount[of "vis c" "acqs c"] by (metis imageE imageI)
  from acqs_render[of u playing "same_preloaded c" autoplay c]
  obtain out st where
    "acqs (render u playing (same_preloaded c) autoplay c) =
       supersede (vis c) (acqs c) @
         [fst (setupAudio_catch out
                \<lparr>v_audioUrl = u, v_isPlaying = playing, v_preloadedAudio = same_preloaded c,
                 v_autoplayEnabled = autoplay, isCurrentSetup = True, retryCount = 0,
                 suspended_at = Returned\<rparr> st)]" by blast
  moreover have "retryCount (fst (setupAudio_catch out
                \<lparr>v_audioUrl = u, v_isPlaying = playing, v_preloadedAudio = same_preloaded c,
                 v_autoplayEnabled = autoplay, isCurrentSetup = True, retryCount = 0,
                 suspended_at = Returned\<rparr> st)) \<le> maxRetries"
    by (rule setupAudio_catch_retry_bound) simp
  ultimately show ?thesis using RenderAgain s by auto
next
  case (Deliver k ev)
  show ?thesis
  proof (cases "k < length (acqs c)")
    case True
    have b: "retryCount (fst (deliver ev (acqs c ! k) (vis c))) \<le> maxRetries"
      using assms True by (intro deliver_retry_bound) simp
    obtain a' st' where d: "deliver ev (acqs c ! k) (vis c) = (a', st')"
      by (cases "deliver ev (acqs c ! k) (vis c)")
    have "acqs (component_step e c) = (acqs c)[k := a']"
      using Deliver True d by (simp del: deliver.simps)
    moreover have "retryCount a' \<le> maxRetries" using b d by simp
    ultimately show ?thesis using assms set_update_subset_insert[of "acqs c" k a'] by auto
  next
    case False
    then show ?thesis using Deliver assms by simp
  qed
next
  case Unmount
  then show ?thesis using assms supersede_retryCount[of "vis c" "acqs c"]
    by (simp add: unmount_def) (metis imageE imageI)
qed

lemma component_run_retry_bound:
  "\<forall>a \<in> set (acqs (component_run es (component_init now suspended))). retryCount a \<le> maxRetries"
proof -
  have "(\<forall>a \<in> set (acqs c). retryCount a \<le> maxRetries) \<Longrightarrow>
        (\<forall>a \<in> set (acqs (component_run es c)). retryCount a \<le> maxRetries)" for c
    unfolding component_run_def
  proof (induction es arbitrary: c)
    case Nil
    then show ?case by simp
  next
    case (Cons e es)
    from Cons.IH[OF component_step_retry_bound[OF Cons.prems, of e]] show ?case by simp
  qed
  from this[of "component_init now suspended"] show ?thesis by (simp add: component_init_def)
qed

text \<open>
  A preloaded element whose \<open>src\<close> is the URL is played without loading. After a
  rejected \<open>play()\<close> the retry finds the same element with the \<open>src\<close> that
  \<open>cleanupAudio\<close> emptied, and loads it; so does a render that passes the element again.
\<close>

lemma preloaded_element_reloads:
  "map suspended_at (acqs (component_run [Render ''A'' True (Some preloaded_A) True]
                             (component_init ''17'' False))) = [AtPlay]
   \<and> component_run [Render ''A'' True (Some preloaded_A) True, Deliver 0 (PlayRejected PlaybackError)]
        (component_init ''17'' False) =
     \<lparr>vis = \<lparr>audioRef = Some \<lparr>el_src = ''A?_=17'', el_loop = False, play_calls = 1, pause_calls = 1\<rparr>,
             audioContextRef = None, analyserRef = False, sourceNodeRef = False,
             animation = False, lastUrlRef = ''A'', resume_listener = False,
             date_now = ''17'', ctx_starts_suspended = False\<rparr>,
      acqs = [\<lparr>v_audioUrl = ''A'', v_isPlaying = True,
               v_preloadedAudio = Some \<lparr>el_src = [], el_loop = False, play_calls = 1, pause_calls = 1\<rparr>,
               v_autoplayEnabled = True, isCurrentSetup = True, retryCount = 1,
               suspended_at = AtMetadata\<rparr>]\<rparr>
   \<and> map suspended_at (acqs (component_run [Render ''A'' True (Some preloaded_A) True,
                                            RenderAgain ''A'' False True]
                             (component_init ''17'' False))) = [AtPlay, AtMetadata]"
  by code_simp

text \<open>
  With the budget used up, the outer \<open>catch\<close> tears the graph down; the inner one, after
  a failed play attempt, returns and leaves it.
\<close>

lemma setupAudio_catch_outer_exhausted:
  "isCurrentSetup a \<Longrightarrow> \<not> retryCount a < maxRetries \<Longrightarrow>
   setupAudio_catch (ThrowOuter e) a st
     = ((release_preloaded st a)\<lparr>suspended_at := Returned\<rparr>, cleanupAudio st)"
  by simp

lemma setupAudio_catch_inner_exhausted:
  "isCurrentSetup a \<Longrightarrow> e \<noteq> NotAllowedError \<Longrightarrow> \<not> retryCount a < maxRetries \<Longrightarrow>
   setupAudio_catch (ThrowInner e) a st = (a\<lparr>suspended_at := Returned\<rparr>, st)"
  by simp

text \<open>
  C6. After an error other than a user-gesture denial the acquisition should be retried
  at most 3 times and the session then be left torn down and idle. The code at a track
  whose metadata and buffering succeed and whose \<open>play()\<close> is rejected four times with
  another error: after the third retry the fourth rejection leaves the element, the
  context, the analyser, the source node and the animation in place.
\<close>

theorem play_failures_leave_graph_open:
  "component_run play_fails (component_init ''17'' False) =
     \<lparr>vis = \<lparr>audioRef = Some \<lparr>el_src = ''A?_=17'', el_loop = False, play_calls = 1, pause_calls = 0\<rparr>,
             audioContextRef = Some Running, analyserRef = True, sourceNodeRef = True,
             animation = True, lastUrlRef = ''A'', resume_listener = False,
             date_now = ''17'', ctx_starts_suspended = False\<rparr>,
      acqs = [\<lparr>v_audioUrl = ''A'', v_isPlaying = True, v_preloadedAudio = None,
               v_autoplayEnabled = True, isCurrentSetup = True, retryCount = 3,
               suspended_at = Returned\<rparr>]\<rparr>"
  by code_simp

text \<open>The sibling path: four load errors end with every ref released.\<close>

lemma load_failures_tear_down:
  "component_run load_fails (component_init ''17'' False) =
     \<lparr>vis = \<lparr>audioRef = None, audioContextRef = None, analyserRef = False, sourceNodeRef = False,
             animation = False, lastUrlRef = ''A'', resume_listener = False,
             date_now = ''17'', ctx_starts_suspended = False\<rparr>,
      acqs = [\<lparr>v_audioUrl = ''A'', v_isPlaying = True, v_preloadedAudio = None,
               v_autoplayEnabled = True, isCurrentSetup = True, retryCount = 3,
               suspended_at = Returned\<rparr>]\<rparr>"
  by code_simp

text \<open>
  C1. A superseded set-up should check its cancellation flag after every suspension
  point and perform no further side effect. The code at a switch from track A to track
  B while the set-up of A waits for \<open>resume()\<close>: after the switch the flag of A is
  cleared, the graph of A is released and \<open>audioRef\<close> holds the element of B, on which
  nothing has called \<open>play()\<close>; when \<open>resume()\<close> then resolves, the set-up of A calls
  \<open>play()\<close> on the element of B, whose own set-up still waits for its metadata.
\<close>

theorem superseded_setup_calls_play:
  "component_run rapid_switch (component_init ''17'' True) =
     \<lparr>vis = \<lparr>audioRef = Some \<lparr>el_src = ''B?_=17'', el_loop = False, play_calls = 0, pause_calls = 0\<rparr>,
             audioContextRef = None, analyserRef = False, sourceNodeRef = False,
             animation = False, lastUrlRef = ''B'', resume_listener = False,
             date_now = ''17'', ctx_starts_suspended = True\<rparr>,
      acqs = [\<lparr>v_audioUrl = ''A'', v_isPlaying = True, v_preloadedAudio = None,
               v_autoplayEnabled = True, isCurrentSetup = False, retryCount = 0,
               suspended_at = AtResume\<rparr>,
              \<lparr>v_audioUrl = ''B'', v_isPlaying = True, v_preloadedAudio = None,
               v_autoplayEnabled = True, isCurrentSetup = True, retryCount = 0,
               suspended_at = AtMetadata\<rparr>]\<rparr>
   \<and> component_run (rapid_switch @ [Deliver 0 ResumeResolved]) (component_init ''17'' True) =
     \<lparr>vis = \<lparr>audioRef = Some \<lparr>el_src = ''B?_=17'', el_loop = False, play_calls = 1, pause_calls = 0\<rparr>,
             audioContextRef = None, analyserRef = False, sourceNodeRef = False,
             animation = False, lastUrlRef = ''B'', resume_listener = False,
             date_now = ''17'', ctx_starts_suspended = True\<rparr>,
      acqs = [\<lparr>v_audioUrl = ''A'', v_isPlaying = True, v_preloadedAudio = None,
               v_autoplayEnabled = True, isCurrentSetup = False, retryCount = 0,
               suspended_at = AtPlay\<rparr>,
              \<lparr>v_audioUrl = ''B'', v_isPlaying = True, v_preloadedAudio = None,
               v_autoplayEnabled = True, isCurrentSetup = True, retryCount = 0,
               suspended_at = AtMetadata\<rparr>]\<rparr>"
  by code_simp

end
